theory Spec2Isabelle
  imports Complex_Main
begin

section \<open>Timeline engine (timeline.ts)\<close>

subsection \<open>Data model\<close>

text \<open>
  Numbers. A TypeScript \<open>number\<close> is modelled as follows: frame numbers are \<open>int\<close>
  (the data model makes a frame a positive integer; the UI produces them with
  \<open>parseInt\<close> and \<open>Math.round\<close>), property values, coordinates, lengths and angles
  are \<open>real\<close>. Rounding, NaN, infinities and signed zeros of IEEE doubles are not
  part of this model. Where the source divides, the model writes out the case of a
  zero divisor instead of relying on HOL's \<open>x / 0 = 0\<close>.
\<close>

type_synonym props = "string \<rightharpoonup> real"

record Keyframe =
  kf_id :: string
  frame :: int
  kf_boneId :: string
  properties :: props
  easing :: string

record Track =
  track_id :: string
  track_name :: string
  track_boneId :: string
  keyframes :: "Keyframe list"
  isVisible :: bool
  isLocked :: bool

text \<open>
  \<open>tracks\<close> is a JavaScript \<open>Map\<close> from track id to track; every entry is stored under
  the id of the track itself (\<open>createTrack\<close>, \<open>deserialize\<close>). It is modelled as the list of
  its values in insertion order, which is the order \<open>tracks.values()\<close> iterates in.
\<close>

record TimelineSystem =
  tracks :: "Track list"
  currentFrame :: int
  totalFrames :: int
  fps :: int
  isPlaying :: bool

datatype error = TrackNotFound | KeyframeNotFound

text \<open>
  The \<open>boneUpdate\<close> event of \<open>interpolateFrame\<close>. \<open>NoEmit\<close>: the track is skipped.
  \<open>BoneUpdateNonFinite\<close>: the bracket has \<open>range = 0\<close>, so that \<open>progress\<close> is NaN or an
  infinity in JavaScript and every emitted value (one per listed key) is non-finite.
\<close>

datatype emission =
    NoEmit
  | BoneUpdate string props
  | BoneUpdateNonFinite string "string set"

subsection \<open>Easing\<close>

definition applyEasing :: "real \<Rightarrow> string \<Rightarrow> real" where
  "applyEasing t type =
     (if type = ''easeIn'' then t * t
      else if type = ''easeOut'' then 1 - (1 - t) * (1 - t)
      else if type = ''easeInOut'' then
        (if t < 1 / 2 then 2 * t * t else 1 - (- 2 * t + 2) ^ 2 / 2)
      else t)"

subsection \<open>Interpolation\<close>

text \<open>
  The scan of adjacent pairs in \<open>interpolateFrame\<close>: the index pair of the first adjacent
  pair with \<open>kfs[i].frame <= frame && kfs[i+1].frame >= frame\<close>, if there is one.
\<close>

fun scanPairs :: "int \<Rightarrow> nat \<Rightarrow> Keyframe list \<Rightarrow> (nat \<times> nat) option" where
  "scanPairs f i (a # b # rest) =
     (if frame a \<le> f \<and> frame b \<ge> f then Some (i, Suc i)
      else scanPairs f (Suc i) (b # rest))"
| "scanPairs f i [a] = None"
| "scanPairs f i [] = None"

text \<open>
  The bracket \<open>(prevKf, nextKf)\<close> as a pair of indices into \<open>track.keyframes\<close>: the
  source starts from the first and the last keyframe and replaces them by the pair found.
  The elements of the array are distinct objects, so the reference comparison
  \<open>prevKf === nextKf\<close> of the source is the equality of the two indices.
\<close>

definition bracket :: "int \<Rightarrow> Keyframe list \<Rightarrow> nat \<times> nat" where
  "bracket f kfs =
     (case scanPairs f 0 kfs of
        Some p \<Rightarrow> p
      | None \<Rightarrow> (0, length kfs - 1))"

text \<open>\<open>v || 0\<close> on an optional number: an absent property counts as 0.\<close>

definition orZero :: "real option \<Rightarrow> real" where
  "orZero v = (case v of None \<Rightarrow> 0 | Some r \<Rightarrow> r)"

definition progressOf :: "int \<Rightarrow> Keyframe \<Rightarrow> Keyframe \<Rightarrow> real" where
  "progressOf f prevKf nextKf =
     real_of_int (f - frame prevKf) / real_of_int (frame nextKf - frame prevKf)"

text \<open>The loop over the keys of \<open>prevKf.properties\<close>, for a given eased progress.\<close>

definition interpolated :: "props \<Rightarrow> props \<Rightarrow> real \<Rightarrow> props" where
  "interpolated prevP nextP e =
     (\<lambda>key. case prevP key of
        None \<Rightarrow> None
      | Some v \<Rightarrow>
          (let startV = orZero (Some v); endV = orZero (nextP key)
           in Some (startV + (endV - startV) * e)))"

definition interpolateTrack :: "int \<Rightarrow> Track \<Rightarrow> emission" where
  "interpolateTrack f track =
     (let kfs = keyframes track in
      if length kfs < 2 then NoEmit
      else
        (let (i, j) = bracket f kfs in
         if i = j then NoEmit
         else
           (let prevKf = kfs ! i; nextKf = kfs ! j in
            if frame nextKf - frame prevKf = 0
            then BoneUpdateNonFinite (track_boneId track) (dom (properties prevKf))
            else
              BoneUpdate (track_boneId track)
                (interpolated (properties prevKf) (properties nextKf)
                   (applyEasing (progressOf f prevKf nextKf) (easing prevKf))))))"

text \<open>\<open>interpolateFrame\<close>: the events emitted, one per track that is not skipped.\<close>

definition interpolateFrame :: "int \<Rightarrow> TimelineSystem \<Rightarrow> emission list" where
  "interpolateFrame f s = filter (\<lambda>e. e \<noteq> NoEmit) (map (interpolateTrack f) (tracks s))"


subsection \<open>Playback clock\<close>

definition goToFrame :: "int \<Rightarrow> TimelineSystem \<Rightarrow> TimelineSystem \<times> emission list" where
  "goToFrame f s =
     (let s' = s\<lparr>currentFrame := max 1 (min (totalFrames s) f)\<rparr>
      in (s', interpolateFrame (currentFrame s') s'))"

text \<open>The callback that \<open>play\<close> hands to \<open>setInterval\<close>: one playback tick.\<close>

definition tick :: "TimelineSystem \<Rightarrow> TimelineSystem \<times> emission list" where
  "tick s =
     (if currentFrame s \<ge> totalFrames s then goToFrame 1 s
      else goToFrame (currentFrame s + 1) s)"

definition tickState :: "TimelineSystem \<Rightarrow> TimelineSystem" where
  "tickState s = fst (tick s)"

subsection \<open>Keyframe editing\<close>

text \<open>
  Identifiers are built from the clock: \<open>'kf_' + Date.now()\<close> and \<open>'track_' + Date.now()\<close>.
  The reading of the clock is a parameter \<open>now\<close> of the operations; nothing makes two
  readings differ. \<open>digitsOf\<close> is the decimal numeral that string concatenation
  produces for a non-negative integer.
\<close>

fun digitsOf :: "nat \<Rightarrow> string" where
  "digitsOf n =
     (if n < 10 then [''0123456789'' ! n]
      else digitsOf (n div 10) @ [''0123456789'' ! (n mod 10)])"

declare digitsOf.simps [simp del]

text \<open>Mutation of the first element that satisfies a predicate (an object found by \<open>find\<close>
  or \<open>Map.get\<close> and then updated in place).\<close>

fun updateFirst :: "('a \<Rightarrow> bool) \<Rightarrow> ('a \<Rightarrow> 'a) \<Rightarrow> 'a list \<Rightarrow> 'a list" where
  "updateFirst P g [] = []"
| "updateFirst P g (x # xs) = (if P x then g x # xs else x # updateFirst P g xs)"



text \<open>\<open>{ ...a, ...b }\<close>, where \<open>b\<close> may be \<open>undefined\<close> (spreading it adds nothing).\<close>

definition mergeProps :: "props \<Rightarrow> props option \<Rightarrow> props" where
  "mergeProps a b = (case b of None \<Rightarrow> a | Some p \<Rightarrow> a ++ p)"

definition createTrack ::
  "nat \<Rightarrow> string \<Rightarrow> string \<Rightarrow> TimelineSystem \<Rightarrow> TimelineSystem \<times> Track" where
  "createTrack now name boneId s =
     (let tid = ''track_'' @ digitsOf now;
          track = \<lparr>track_id = tid, track_name = name, track_boneId = boneId,
                   keyframes = [], isVisible = True, isLocked = False\<rparr>
      in (s\<lparr>tracks :=
             (if find (\<lambda>t. track_id t = tid) (tracks s) = None then tracks s @ [track]
              else updateFirst (\<lambda>t. track_id t = tid) (\<lambda>t. track) (tracks s))\<rparr>,
          track))"

text \<open>The loop of \<open>updateKeyframe\<close> over \<open>tracks.values()\<close>; \<open>None\<close> when it falls through.\<close>

fun updateKeyframeIn ::
  "string \<Rightarrow> props option \<Rightarrow> Track list \<Rightarrow> (Track list \<times> Keyframe) option" where
  "updateKeyframeIn keyframeId p [] = None"
| "updateKeyframeIn keyframeId p (t # ts) =
     (case find (\<lambda>k. kf_id k = keyframeId) (keyframes t) of
        Some kf \<Rightarrow>
          Some (t\<lparr>keyframes :=
                    updateFirst (\<lambda>k. kf_id k = keyframeId)
                      (\<lambda>k. k\<lparr>properties := mergeProps (properties k) p\<rparr>) (keyframes t)\<rparr> # ts,
                kf\<lparr>properties := mergeProps (properties kf) p\<rparr>)
      | None \<Rightarrow>
          (case updateKeyframeIn keyframeId p ts of
             None \<Rightarrow> None
           | Some (ts', kf) \<Rightarrow> Some (t # ts', kf)))"

definition updateKeyframe ::
  "string \<Rightarrow> props option \<Rightarrow> TimelineSystem \<Rightarrow> error + TimelineSystem \<times> Keyframe" where
  "updateKeyframe keyframeId p s =
     (case updateKeyframeIn keyframeId p (tracks s) of
        None \<Rightarrow> Inl KeyframeNotFound
      | Some (ts, kf) \<Rightarrow> Inr (s\<lparr>tracks := ts\<rparr>, kf))"



text \<open>
  \<open>addKeyframe\<close>. \<open>Array.prototype.sort\<close> is stable, as is \<open>sort_key\<close>; \<open>properties || {}\<close>
  is the empty object when no properties are passed.
\<close>

definition addKeyframe ::
  "nat \<Rightarrow> string \<Rightarrow> int \<Rightarrow> props option \<Rightarrow> TimelineSystem
     \<Rightarrow> error + TimelineSystem \<times> Keyframe" where
  "addKeyframe now trackId f p s =
     (case find (\<lambda>t. track_id t = trackId) (tracks s) of
        None \<Rightarrow> Inl TrackNotFound
      | Some track \<Rightarrow>
          (case find (\<lambda>kf. frame kf = f) (keyframes track) of
             Some existing \<Rightarrow> updateKeyframe (kf_id existing) p s
           | None \<Rightarrow>
               (let keyframe =
                      \<lparr>kf_id = ''kf_'' @ digitsOf now, frame = f,
                       kf_boneId = track_boneId track,
                       properties = (case p of None \<Rightarrow> Map.empty | Some q \<Rightarrow> q),
                       easing = ''linear''\<rparr>
                in Inr (s\<lparr>tracks :=
                            updateFirst (\<lambda>t. track_id t = trackId)
                              (\<lambda>t. t\<lparr>keyframes := sort_key frame (keyframes t @ [keyframe])\<rparr>)
                              (tracks s)\<rparr>,
                        keyframe))))"

text \<open>The keyframes of the track stored under an id (empty when there is none).\<close>

definition keyframesOf :: "string \<Rightarrow> TimelineSystem \<Rightarrow> Keyframe list" where
  "keyframesOf trackId s =
     (case find (\<lambda>t. track_id t = trackId) (tracks s) of
        None \<Rightarrow> []
      | Some t \<Rightarrow> keyframes t)"

section \<open>Bone system (bones.ts)\<close>

subsection \<open>Data model\<close>

text \<open>
  The PIXI containers (\<open>boneGraphics\<close>, \<open>renderBone\<close>, \<open>updateBoneGraphics\<close>) and the
  selection (\<open>selectedBoneId\<close>) are presentation state: they read the bone records and
  never write them, and they are left out of the model.
\<close>

datatype BoneType = FK | IK

type_synonym Vector2 = "real \<times> real"

record BoneData =
  bone_id :: string
  bone_name :: string
  bone_x :: real
  bone_y :: real
  bone_length :: real
  angle :: real
  color :: string
  thickness :: real
  parentId :: "string option"
  children :: "string list"
  bone_type :: BoneType
  isSelected :: bool

text \<open>
  \<open>bones\<close> is a \<open>Map\<close> from id to the bone object; an object is only ever stored under
  its own id, so the id stands for the reference to the object.
\<close>

type_synonym bones = "string \<rightharpoonup> BoneData"

definition ikIterations :: nat where
  "ikIterations = 10"

definition ikTolerance :: real where
  "ikTolerance = 1 / 10"

text \<open>\<open>parentId ? bones.get(parentId) : undefined\<close>; an absent id and the empty string are
  both falsy.\<close>

definition getParent :: "bones \<Rightarrow> BoneData \<Rightarrow> (string \<times> BoneData) option" where
  "getParent bs bone =
     (case parentId bone of
        None \<Rightarrow> None
      | Some pid \<Rightarrow>
          (if pid = [] then None
           else (case bs pid of None \<Rightarrow> None | Some parent \<Rightarrow> Some (pid, parent))))"

subsection \<open>Geometry\<close>

definition hypot :: "real \<Rightarrow> real \<Rightarrow> real" where
  "hypot a b = sqrt (a ^ 2 + b ^ 2)"

definition distance :: "Vector2 \<Rightarrow> Vector2 \<Rightarrow> real" where
  "distance a b = hypot (fst b - fst a) (snd b - snd a)"

definition normalize :: "Vector2 \<Rightarrow> Vector2" where
  "normalize v =
     (let len = hypot (fst v) (snd v)
      in if len > 0 then (fst v / len, snd v / len) else (0, 0))"

text \<open>\<open>Math.atan2(y, x)\<close> on real arguments, as ECMAScript specifies it.\<close>

definition atan2 :: "real \<Rightarrow> real \<Rightarrow> real" where
  "atan2 y x =
     (if x > 0 then arctan (y / x)
      else if x < 0 then (if y \<ge> 0 then arctan (y / x) + pi else arctan (y / x) - pi)
      else if y > 0 then pi / 2
      else if y < 0 then - pi / 2
      else 0)"

definition getBoneEnd :: "BoneData \<Rightarrow> Vector2" where
  "getBoneEnd bone =
     (bone_x bone + cos (angle bone) * bone_length bone,
      bone_y bone + sin (angle bone) * bone_length bone)"

subsection \<open>Creation\<close>

text \<open>
  \<open>'bone_' + Date.now() + '_' + Math.random().toString(36).substr(2, 9)\<close>: the clock
  reading \<open>now\<close> and the random suffix \<open>rnd\<close> are parameters.
\<close>

definition newBoneId :: "nat \<Rightarrow> string \<Rightarrow> string" where
  "newBoneId now rnd = ''bone_'' @ digitsOf now @ ''_'' @ rnd"

definition createBone ::
  "nat \<Rightarrow> string \<Rightarrow> string \<Rightarrow> real \<Rightarrow> real \<Rightarrow> real \<Rightarrow> real \<Rightarrow> BoneType \<Rightarrow> string option
     \<Rightarrow> bones \<Rightarrow> bones \<times> string" where
  "createBone now rnd name x y len ang ty pid bs =
     (let i = newBoneId now rnd;
          bone = \<lparr>bone_id = i, bone_name = name, bone_x = x, bone_y = y, bone_length = len,
                  angle = ang, color = ''#00ff88'', thickness = 3, parentId = pid,
                  children = [], bone_type = ty, isSelected = False\<rparr>;
          bs1 = bs(i \<mapsto> bone)
      in (case getParent bs1 bone of
            None \<Rightarrow> (bs1, i)
          | Some (p, parent) \<Rightarrow>
              (let bs2 = bs1(p \<mapsto> parent\<lparr>children := children parent @ [i]\<rparr>);
                   parentEnd = getBoneEnd parent
               in (case bs2 i of
                     None \<Rightarrow> (bs2, i)
                   | Some b \<Rightarrow>
                       (bs2(i \<mapsto> b\<lparr>bone_x := fst parentEnd, bone_y := snd parentEnd\<rparr>), i)))))"

subsection \<open>Recursive walks\<close>

text \<open>
  The walks over \<open>children\<close> and \<open>parentId\<close> recurse as long as the links lead on, and
  do not end on a cyclic hierarchy. They take a bound \<open>fuel\<close> on the depth of the
  recursion; the result \<open>None\<close> says that the bound was reached.
\<close>

text \<open>The first step of \<open>updateBonePosition\<close>: a bone whose parent resolves is put at the
  parent's end.\<close>

definition snapToParent :: "string \<Rightarrow> BoneData \<Rightarrow> bones \<Rightarrow> bones" where
  "snapToParent i bone bs =
     (case getParent bs bone of
        None \<Rightarrow> bs
      | Some (p, parent) \<Rightarrow>
          bs(i \<mapsto> bone\<lparr>bone_x := fst (getBoneEnd parent),
                         bone_y := snd (getBoneEnd parent)\<rparr>))"

fun updateBonePosition :: "nat \<Rightarrow> string \<Rightarrow> bones \<Rightarrow> bones option"
  and updateEach :: "nat \<Rightarrow> string list \<Rightarrow> bones \<Rightarrow> bones option" where
  "updateBonePosition 0 i bs = None"
| "updateBonePosition (Suc n) i bs =
     (case bs i of
        None \<Rightarrow> Some bs
      | Some bone \<Rightarrow> updateEach n (children bone) (snapToParent i bone bs))"
| "updateEach n [] bs = Some bs"
| "updateEach n (c # cs) bs =
     (case bs c of
        None \<Rightarrow> updateEach n cs bs
      | Some child \<Rightarrow>
          (case updateBonePosition n c bs of
             None \<Rightarrow> None
           | Some bs' \<Rightarrow> updateEach n cs bs'))"

fun moveChildren :: "nat \<Rightarrow> string \<Rightarrow> real \<Rightarrow> real \<Rightarrow> bones \<Rightarrow> bones option"
  and moveEach :: "nat \<Rightarrow> string list \<Rightarrow> real \<Rightarrow> real \<Rightarrow> bones \<Rightarrow> bones option" where
  "moveChildren 0 i dx dy bs = None"
| "moveChildren (Suc n) i dx dy bs =
     (case bs i of
        None \<Rightarrow> Some bs
      | Some bone \<Rightarrow> moveEach n (children bone) dx dy bs)"
| "moveEach n [] dx dy bs = Some bs"
| "moveEach n (c # cs) dx dy bs =
     (case bs c of
        None \<Rightarrow> moveEach n cs dx dy bs
      | Some child \<Rightarrow>
          (case moveChildren n c dx dy
                  (bs(c \<mapsto> child\<lparr>bone_x := bone_x child + dx, bone_y := bone_y child + dy\<rparr>)) of
             None \<Rightarrow> None
           | Some bs' \<Rightarrow> moveEach n cs dx dy bs'))"

definition moveBone :: "nat \<Rightarrow> string \<Rightarrow> Vector2 \<Rightarrow> bones \<Rightarrow> bones option" where
  "moveBone fuel boneId position bs =
     (case bs boneId of
        None \<Rightarrow> Some bs
      | Some bone \<Rightarrow>
          (let dx = fst position - bone_x bone;
               dy = snd position - bone_y bone
           in moveChildren fuel boneId dx dy
                (bs(boneId \<mapsto> bone\<lparr>bone_x := fst position, bone_y := snd position\<rparr>))))"

definition setBoneAngle :: "nat \<Rightarrow> string \<Rightarrow> real \<Rightarrow> bones \<Rightarrow> bones option" where
  "setBoneAngle fuel boneId a bs =
     (case bs boneId of
        None \<Rightarrow> Some bs
      | Some bone \<Rightarrow> updateBonePosition fuel boneId (bs(boneId \<mapsto> bone\<lparr>angle := a\<rparr>)))"

text \<open>
  \<open>deleteBone\<close>: the bone is taken out of its parent's \<open>children\<close> (a new, filtered
  array), then \<open>forEach\<close> runs over the bone's own array as it is at that moment, and at
  last the bone leaves the map.
\<close>

definition detach :: "string \<Rightarrow> BoneData \<Rightarrow> bones \<Rightarrow> bones" where
  "detach boneId bone bs =
     (case getParent bs bone of
        None \<Rightarrow> bs
      | Some (p, parent) \<Rightarrow>
          bs(p \<mapsto> parent\<lparr>children := filter (\<lambda>i. i \<noteq> boneId) (children parent)\<rparr>))"

definition childrenOf :: "bones \<Rightarrow> string \<Rightarrow> string list" where
  "childrenOf bs i = (case bs i of None \<Rightarrow> [] | Some b \<Rightarrow> children b)"

fun deleteBone :: "nat \<Rightarrow> string \<Rightarrow> bones \<Rightarrow> bones option"
  and deleteEach :: "nat \<Rightarrow> string list \<Rightarrow> bones \<Rightarrow> bones option" where
  "deleteBone 0 boneId bs = None"
| "deleteBone (Suc n) boneId bs =
     (case bs boneId of
        None \<Rightarrow> Some bs
      | Some bone \<Rightarrow>
          (case deleteEach n (childrenOf (detach boneId bone bs) boneId)
                  (detach boneId bone bs) of
             None \<Rightarrow> None
           | Some bs' \<Rightarrow> Some (bs'(boneId := None))))"
| "deleteEach n [] bs = Some bs"
| "deleteEach n (c # cs) bs =
     (case deleteBone n c bs of
        None \<Rightarrow> None
      | Some bs' \<Rightarrow> deleteEach n cs bs')"

subsection \<open>Inverse kinematics (cyclic coordinate descent)\<close>

text \<open>The \<open>while (current)\<close> loop that builds the chain root \<open>\<rightarrow>\<close> effector with \<open>unshift\<close>.\<close>

fun buildChain :: "nat \<Rightarrow> string option \<Rightarrow> bones \<Rightarrow> string list \<Rightarrow> string list option" where
  "buildChain fuel None bs chain = Some chain"
| "buildChain 0 (Some i) bs chain = None"
| "buildChain (Suc n) (Some i) bs chain =
     (case bs i of
        None \<Rightarrow> Some chain
      | Some current \<Rightarrow>
          buildChain n (map_option fst (getParent bs current)) bs (i # chain))"

definition getChainEnd :: "string list \<Rightarrow> bones \<Rightarrow> Vector2 option" where
  "getChainEnd chain bs =
     (case chain of
        [] \<Rightarrow> None
      | _ \<Rightarrow> map_option getBoneEnd (bs (last chain)))"

text \<open>The angle step of one joint: the signed angle \<open>atan2(cross, dot)\<close> of the unit vectors
  from the joint to the target and from the joint to the end-effector.\<close>

definition angleDiff :: "BoneData \<Rightarrow> Vector2 \<Rightarrow> Vector2 \<Rightarrow> real" where
  "angleDiff currentBone endEffector target =
     (let toTarget = normalize (fst target - bone_x currentBone,
                                snd target - bone_y currentBone);
          toEnd = normalize (fst endEffector - bone_x currentBone,
                             snd endEffector - bone_y currentBone);
          cross = fst toTarget * snd toEnd - snd toTarget * fst toEnd;
          dot = fst toTarget * fst toEnd + snd toTarget * snd toEnd
      in atan2 cross dot)"

text \<open>
  The inner loop over the joints \<open>chain[length - 1], \<dots>, chain[0]\<close> (the argument \<open>js\<close> holds
  those still to come). The flag of the result is \<open>True\<close> when the loop was left through
  \<open>return\<close>, the end-effector being within the tolerance.
\<close>

fun ccdPass ::
  "nat \<Rightarrow> Vector2 \<Rightarrow> string list \<Rightarrow> string list \<Rightarrow> bones \<Rightarrow> (bool \<times> bones) option" where
  "ccdPass fuel target chain [] bs = Some (False, bs)"
| "ccdPass fuel target chain (j # js) bs =
     (case bs j of
        None \<Rightarrow> None
      | Some currentBone \<Rightarrow>
          (case getChainEnd chain bs of
             None \<Rightarrow> None
           | Some endEffector \<Rightarrow>
               (if distance endEffector target < ikTolerance then Some (True, bs)
                else
                  (case updateBonePosition fuel j
                          (bs(j \<mapsto> currentBone\<lparr>angle := angle currentBone
                                  + angleDiff currentBone endEffector target\<rparr>)) of
                     None \<Rightarrow> None
                   | Some bs' \<Rightarrow> ccdPass fuel target chain js bs'))))"

fun ccdIterate ::
  "nat \<Rightarrow> nat \<Rightarrow> Vector2 \<Rightarrow> string list \<Rightarrow> bones \<Rightarrow> (bool \<times> bones) option" where
  "ccdIterate 0 fuel target chain bs = Some (False, bs)"
| "ccdIterate (Suc k) fuel target chain bs =
     (case ccdPass fuel target chain (rev chain) bs of
        None \<Rightarrow> None
      | Some (True, bs') \<Rightarrow> Some (True, bs')
      | Some (False, bs') \<Rightarrow> ccdIterate k fuel target chain bs')"

definition solveIKRun :: "nat \<Rightarrow> string \<Rightarrow> Vector2 \<Rightarrow> bones \<Rightarrow> (bool \<times> bones) option" where
  "solveIKRun fuel boneId target bs =
     (case bs boneId of
        None \<Rightarrow> Some (False, bs)
      | Some bone \<Rightarrow>
          (case buildChain fuel (Some boneId) bs [] of
             None \<Rightarrow> None
           | Some chain \<Rightarrow> ccdIterate ikIterations fuel target chain bs))"

definition solveIK :: "nat \<Rightarrow> string \<Rightarrow> Vector2 \<Rightarrow> bones \<Rightarrow> bones option" where
  "solveIK fuel boneId target bs = map_option snd (solveIKRun fuel boneId target bs)"

section \<open>Hierarchies, tracks and their invariants\<close>

text \<open>The keyframes of every track are in strictly ascending order of \<open>frame\<close>, which
  makes every frame the frame of at most one keyframe of a track.\<close>

definition framesAscending :: "TimelineSystem \<Rightarrow> bool" where
  "framesAscending s \<longleftrightarrow> (\<forall>t\<in>set (tracks s). sorted_wrt (<) (map frame (keyframes t)))"

text \<open>The pairs (parent, child) that the \<open>children\<close> arrays give.\<close>

definition childRel :: "bones \<Rightarrow> (string \<times> string) set" where
  "childRel bs = {(p, c). \<exists>b. bs p = Some b \<and> c \<in> set (children b)}"

text \<open>A bone together with its descendants along the \<open>children\<close> arrays.\<close>

definition subtree :: "bones \<Rightarrow> string \<Rightarrow> string set" where
  "subtree bs i = (childRel bs)\<^sup>* `` {i}"

text \<open>A bone with \<open>(dx, dy)\<close> added to its cached position.\<close>

definition translate :: "real \<Rightarrow> real \<Rightarrow> BoneData \<Rightarrow> BoneData" where
  "translate dx dy b = b\<lparr>bone_x := bone_x b + dx, bone_y := bone_y b + dy\<rparr>"

text \<open>The hierarchy in which the bones of \<open>A\<close>, and no others, are translated by \<open>(dx, dy)\<close>.\<close>

definition shifted :: "string set \<Rightarrow> real \<Rightarrow> real \<Rightarrow> bones \<Rightarrow> bones" where
  "shifted A dx dy bs = (\<lambda>i. if i \<in> A then map_option (translate dx dy) (bs i) else bs i)"

text \<open>The two halves of the consistency of \<open>children\<close> and \<open>parentId\<close> that the code keeps:
  a listed child exists and names the lister as its parent, and a bone whose \<open>parentId\<close>
  names an existing bone is listed by that bone.\<close>

definition childrenLinked :: "bones \<Rightarrow> bool" where
  "childrenLinked bs \<longleftrightarrow>
     (\<forall>i b. bs i = Some b \<longrightarrow>
        (\<forall>c\<in>set (children b). \<exists>cb. bs c = Some cb \<and> parentId cb = Some i))"

definition parentsLinked :: "bones \<Rightarrow> bool" where
  "parentsLinked bs \<longleftrightarrow>
     (\<forall>c cb p pb. bs c = Some cb \<and> parentId cb = Some p \<and> bs p = Some pb
        \<longrightarrow> c \<in> set (children pb))"


text \<open>A height and a depth on the ids: where one exists, the \<open>children\<close> links have no
  cycle, and it bounds the depth of the recursive walks.\<close>

definition ranked :: "(string \<Rightarrow> nat) \<Rightarrow> bones \<Rightarrow> bool" where
  "ranked h bs \<longleftrightarrow> (\<forall>p c. (p, c) \<in> childRel bs \<longrightarrow> h c < h p)"

definition levelled :: "(string \<Rightarrow> nat) \<Rightarrow> bones \<Rightarrow> bool" where
  "levelled d bs \<longleftrightarrow> (\<forall>p c. (p, c) \<in> childRel bs \<longrightarrow> d p < d c)"

text \<open>No node has two parents.\<close>

definition uniqueParent :: "('a \<times> 'a) set \<Rightarrow> bool" where
  "uniqueParent R \<longleftrightarrow> (\<forall>p q c. (p, c) \<in> R \<and> (q, c) \<in> R \<longrightarrow> p = q)"

text \<open>A well-formed hierarchy: no bone has the empty id, the links are consistent, no
  \<open>children\<close> array lists an id twice, and the links have no cycle.\<close>

definition wellFormed :: "bones \<Rightarrow> bool" where
  "wellFormed bs \<longleftrightarrow>
     [] \<notin> dom bs \<and> childrenLinked bs \<and> parentsLinked bs
     \<and> (\<forall>i b. bs i = Some b \<longrightarrow> distinct (children b))
     \<and> (\<exists>h. ranked h bs) \<and> (\<exists>d. levelled d bs)"

text \<open>The second hierarchy differs from the first in positions and angles only.\<close>

definition poseOnly :: "bones \<Rightarrow> bones \<Rightarrow> bool" where
  "poseOnly bs bs' \<longleftrightarrow>
     (\<forall>i. case bs i of
            None \<Rightarrow> bs' i = None
          | Some b \<Rightarrow> \<exists>x y a. bs' i = Some (b\<lparr>bone_x := x, bone_y := y, angle := a\<rparr>))"

text \<open>The id that \<open>createBone\<close> generates is new: no bone has it, it is not the \<open>parentId\<close>
  passed to \<open>createBone\<close>, and no bone names it as its parent. The random suffix of the
  id stands for this; the code does not check it.\<close>

definition freshId :: "string \<Rightarrow> string option \<Rightarrow> bones \<Rightarrow> bool" where
  "freshId i pid bs \<longleftrightarrow>
     bs i = None \<and> pid \<noteq> Some i \<and> (\<forall>j b. bs j = Some b \<longrightarrow> parentId b \<noteq> Some i)"

text \<open>The hierarchies that the mutating operations build from the empty one.\<close>

inductive reachable :: "bones \<Rightarrow> bool" where
  empty: "reachable Map.empty"
| create: "reachable bs \<Longrightarrow> freshId (newBoneId now rnd) pid bs \<Longrightarrow>
     reachable (fst (createBone now rnd name x y len ang ty pid bs))"
| delete: "reachable bs \<Longrightarrow> deleteBone fuel i bs = Some bs' \<Longrightarrow> reachable bs'"
| move: "reachable bs \<Longrightarrow> moveBone fuel i position bs = Some bs' \<Longrightarrow> reachable bs'"
| rotate: "reachable bs \<Longrightarrow> setBoneAngle fuel i a bs = Some bs' \<Longrightarrow> reachable bs'"
| solve: "reachable bs \<Longrightarrow> solveIK fuel i target bs = Some bs' \<Longrightarrow> reachable bs'"

text \<open>The consistency of the links while \<open>deleteBone\<close> is at work: the bones in \<open>D\<close> are
  already taken out of the \<open>children\<close> of their parents.\<close>

definition partlyLinked :: "string set \<Rightarrow> bones \<Rightarrow> bool" where
  "partlyLinked D bs \<longleftrightarrow>
     [] \<notin> dom bs \<and> childrenLinked bs
     \<and> (\<forall>c cb p pb. c \<notin> D \<and> bs c = Some cb \<and> parentId cb = Some p \<and> bs p = Some pb
           \<longrightarrow> c \<in> set (children pb))"

text \<open>The second hierarchy has lost bones and entries of \<open>children\<close> arrays, and is
  otherwise the first.\<close>

definition shrunk :: "bones \<Rightarrow> bones \<Rightarrow> bool" where
  "shrunk bs bs' \<longleftrightarrow>
     (\<forall>i b'. bs' i = Some b' \<longrightarrow>
        (\<exists>b P. bs i = Some b \<and> b' = b\<lparr>children := filter P (children b)\<rparr>))"

text \<open>No \<open>children\<close> array lists the id.\<close>

definition unlisted :: "string \<Rightarrow> bones \<Rightarrow> bool" where
  "unlisted c bs \<longleftrightarrow> (\<forall>j b. bs j = Some b \<longrightarrow> c \<notin> set (children b))"

section \<open>Example inputs\<close>

definition clock300 :: TimelineSystem where
  "clock300 = \<lparr>tracks = [], currentFrame = 300, totalFrames = 300, fps = 24, isPlaying = True\<rparr>"



definition timeline0 :: TimelineSystem where
  "timeline0 = \<lparr>tracks = [], currentFrame = 1, totalFrames = 300, fps = 24, isPlaying = False\<rparr>"

text \<open>Sequencing of calls that may fail: the first error ends the sequence.\<close>

definition andThen ::
  "error + TimelineSystem \<times> Keyframe \<Rightarrow> (TimelineSystem \<Rightarrow> error + TimelineSystem \<times> Keyframe)
     \<Rightarrow> error + TimelineSystem \<times> Keyframe" where
  "andThen r call = (case r of Inl e \<Rightarrow> Inl e | Inr (s, k) \<Rightarrow> call s)"

definition resultState :: "error + TimelineSystem \<times> Keyframe \<Rightarrow> TimelineSystem option" where
  "resultState r = (case r of Inl e \<Rightarrow> None | Inr (s, k) \<Rightarrow> Some s)"

definition resultKeyframe :: "error + TimelineSystem \<times> Keyframe \<Rightarrow> Keyframe option" where
  "resultKeyframe r = (case r of Inl e \<Rightarrow> None | Inr (s, k) \<Rightarrow> Some k)"

definition xValues :: "string \<Rightarrow> TimelineSystem \<Rightarrow> (string \<times> int \<times> real option) list" where
  "xValues trackId s = map (\<lambda>k. (kf_id k, frame k, properties k ''x'')) (keyframesOf trackId s)"

text \<open>
  Two tracks, each given a keyframe at frame 5 within the same millisecond (clock reading
  1000), then a second \<open>addKeyframe\<close> at frame 5 on the second track.
\<close>

definition twoTracks :: TimelineSystem where
  "twoTracks = fst (createTrack 8 ''leg'' ''bone_b'' (fst (createTrack 7 ''arm'' ''bone_a'' timeline0)))"

definition sameMillisecond :: "error + TimelineSystem \<times> Keyframe" where
  "sameMillisecond =
     andThen (andThen (addKeyframe 1000 ''track_7'' 5 (Some [''x'' \<mapsto> 1]) twoTracks)
                (addKeyframe 1000 ''track_8'' 5 (Some [''x'' \<mapsto> 2])))
       (addKeyframe 2000 ''track_8'' 5 (Some [''x'' \<mapsto> 9]))"



definition upperArm :: bones where
  "upperArm = fst (createBone 7 ''a'' ''upper'' 0 0 10 0 IK None Map.empty)"

definition straightArm :: bones where
  "straightArm = fst (createBone 8 ''b'' ''lower'' 0 0 10 0 IK (Some ''bone_7_a'') upperArm)"

section \<open>Properties of the timeline engine\<close>

subsection \<open>Easing tags\<close>

lemma scanPairs_map_easing:
  "scanPairs f i (map (\<lambda>k. k\<lparr>easing := g k\<rparr>) kfs) = scanPairs f i kfs"
  by (induction f i kfs rule: scanPairs.induct) auto

lemma bracket_map_easing:
  "bracket f (map (\<lambda>k. k\<lparr>easing := g k\<rparr>) kfs) = bracket f kfs"
  by (simp add: bracket_def scanPairs_map_easing split: option.split)

lemma scanPairs_bounds:
  "scanPairs f i kfs = Some (a, b) \<Longrightarrow> i \<le> a \<and> b = Suc a \<and> b < i + length kfs"
  by (induction f i kfs arbitrary: a b rule: scanPairs.induct) (auto split: if_splits)

lemma bracket_bounds:
  "2 \<le> length kfs \<Longrightarrow> bracket f kfs = (a, b) \<Longrightarrow> a < b \<and> b < length kfs"
  by (auto simp: bracket_def split: option.splits dest: scanPairs_bounds)

text \<open>
  C10. A tag other than \<open>easeIn\<close>, \<open>easeOut\<close> and \<open>easeInOut\<close> (\<open>linear\<close>, an unknown
  or a misspelled tag) leaves the progress unchanged for every \<open>t\<close>, so that the
  interpolation under such a tag is the interpolation under \<open>linear\<close>; it does not fail.
\<close>

theorem applyEasing_unrecognized_is_linear:
  assumes "type \<noteq> ''easeIn''" and "type \<noteq> ''easeOut''" and "type \<noteq> ''easeInOut''"
  shows "applyEasing t type = t
    \<and> applyEasing t type = applyEasing t ''linear''
    \<and> interpolateTrack f (track\<lparr>keyframes := map (\<lambda>k. k\<lparr>easing := type\<rparr>) kfs\<rparr>)
        = interpolateTrack f (track\<lparr>keyframes := map (\<lambda>k. k\<lparr>easing := ''linear''\<rparr>) kfs\<rparr>)"
proof -
  have e: "\<And>u. applyEasing u type = u" "\<And>u. applyEasing u ''linear'' = u"
    using assms by (simp_all add: applyEasing_def)
  have "interpolateTrack f (track\<lparr>keyframes := map (\<lambda>k. k\<lparr>easing := type\<rparr>) kfs\<rparr>)
        = interpolateTrack f (track\<lparr>keyframes := map (\<lambda>k. k\<lparr>easing := ''linear''\<rparr>) kfs\<rparr>)"
  proof (cases "length kfs < 2")
    case True
    then show ?thesis by (simp add: interpolateTrack_def)
  next
    case False
    obtain a b where ab: "bracket f kfs = (a, b)" by (cases "bracket f kfs")
    with False have "a < b" "b < length kfs" using bracket_bounds[of kfs f a b] by auto
    then show ?thesis using False ab
      by (simp add: interpolateTrack_def bracket_map_easing e progressOf_def Let_def)
  qed
  with e show ?thesis by simp
qed

theorem applyEasing_unrecognized_is_linear_witness:
  "''bounce'' \<noteq> ''easeIn'' \<and> ''bounce'' \<noteq> ''easeOut'' \<and> ''bounce'' \<noteq> ''easeInOut''
   \<and> applyEasing (1/4) ''bounce'' = 1/4"
proof -
  have h: "''bounce'' \<noteq> ''easeIn''" "''bounce'' \<noteq> ''easeOut''" "''bounce'' \<noteq> ''easeInOut''"
    by simp_all
  from applyEasing_unrecognized_is_linear[OF h, of "1/4"] h show ?thesis by blast
qed

subsection \<open>Playback clock\<close>



lemma tick_currentFrame:
  "currentFrame (tickState s) =
     (if currentFrame s \<ge> totalFrames s then max 1 (min (totalFrames s) 1)
      else max 1 (min (totalFrames s) (currentFrame s + 1)))"
  by (simp add: tickState_def tick_def goToFrame_def Let_def)

lemma tick_totalFrames: "totalFrames (tickState s) = totalFrames s"
  by (simp add: tickState_def tick_def goToFrame_def Let_def)

lemma ticks_totalFrames: "totalFrames ((tickState ^^ n) s) = totalFrames s"
  by (induction n) (simp_all add: tick_totalFrames)

lemma ticks_in_range:
  "1 \<le> currentFrame s \<Longrightarrow> currentFrame s \<le> totalFrames s \<Longrightarrow>
   1 \<le> currentFrame ((tickState ^^ n) s) \<and> currentFrame ((tickState ^^ n) s) \<le> totalFrames s"
  by (induction n) (auto simp: tick_currentFrame ticks_totalFrames)

text \<open>
  C7. From a clock with \<open>1 \<le> currentFrame \<le> totalFrames\<close>, one playback tick leads to
  \<open>currentFrame + 1\<close> below \<open>totalFrames\<close> and to frame 1 at \<open>totalFrames\<close>; under any number
  of ticks \<open>currentFrame\<close> stays within \<open>[1, totalFrames]\<close> and is never \<open>totalFrames + 1\<close>.
\<close>

theorem tick_advances_or_wraps:
  assumes "1 \<le> currentFrame s" and "currentFrame s \<le> totalFrames s"
  shows "currentFrame (tickState s) =
           (if currentFrame s < totalFrames s then currentFrame s + 1 else 1)
    \<and> totalFrames (tickState s) = totalFrames s
    \<and> (\<forall>n. 1 \<le> currentFrame ((tickState ^^ n) s)
          \<and> currentFrame ((tickState ^^ n) s) \<le> totalFrames s
          \<and> currentFrame ((tickState ^^ n) s) \<noteq> totalFrames s + 1)"
proof -
  have "currentFrame (tickState s) =
           (if currentFrame s < totalFrames s then currentFrame s + 1 else 1)"
    using assms by (auto simp: tick_currentFrame)
  moreover have "\<forall>n. 1 \<le> currentFrame ((tickState ^^ n) s)
          \<and> currentFrame ((tickState ^^ n) s) \<le> totalFrames s
          \<and> currentFrame ((tickState ^^ n) s) \<noteq> totalFrames s + 1"
  proof
    fix n
    from ticks_in_range[OF assms, of n] show "1 \<le> currentFrame ((tickState ^^ n) s)
          \<and> currentFrame ((tickState ^^ n) s) \<le> totalFrames s
          \<and> currentFrame ((tickState ^^ n) s) \<noteq> totalFrames s + 1"
      by linarith
  qed
  ultimately show ?thesis by (simp add: tick_totalFrames)
qed

text \<open>At the last frame of a 300-frame clock the next tick lands on frame 1.\<close>

theorem tick_advances_or_wraps_witness:
  "1 \<le> currentFrame clock300 \<and> currentFrame clock300 \<le> totalFrames clock300
   \<and> currentFrame (tickState clock300) = 1
   \<and> currentFrame ((tickState ^^ 2) clock300) \<noteq> 301"
proof -
  have h: "1 \<le> currentFrame clock300" "currentFrame clock300 \<le> totalFrames clock300"
    by (simp_all add: clock300_def)
  have t: "totalFrames clock300 = 300" "currentFrame clock300 = 300" by (simp_all add: clock300_def)
  from tick_advances_or_wraps[OF h] h t show ?thesis by auto
qed

subsection \<open>Interpolation at the ends of the bracket\<close>









subsection \<open>Interpolation outside the range of the keyframes\<close>








subsection \<open>Keyframe identifiers\<close>

lemma digitsOf_examples:
  "digitsOf 7 = ''7''" "digitsOf 8 = ''8''" "digitsOf 1000 = ''1000''" "digitsOf 2000 = ''2000''"
  by (simp_all add: digitsOf.simps[of 7] digitsOf.simps[of 8] digitsOf.simps[of 1000] digitsOf.simps[of 100]
      digitsOf.simps[of 10] digitsOf.simps[of "Suc 0"] digitsOf.simps[of 2] digitsOf.simps[of 2000] digitsOf.simps[of 200] digitsOf.simps[of 20])

lemma twoTracks_eq:
  "twoTracks = \<lparr>tracks =
      [\<lparr>track_id = ''track_7'', track_name = ''arm'', track_boneId = ''bone_a'',
        keyframes = [], isVisible = True, isLocked = False\<rparr>,
       \<lparr>track_id = ''track_8'', track_name = ''leg'', track_boneId = ''bone_b'',
        keyframes = [], isVisible = True, isLocked = False\<rparr>],
      currentFrame = 1, totalFrames = 300, fps = 24, isPlaying = False\<rparr>"
  by (simp add: twoTracks_def createTrack_def timeline0_def digitsOf_examples Let_def)

text \<open>
  C4. The second \<open>addKeyframe\<close> at a frame is to merge its properties into the keyframe the
  track has at that frame. \<open>addKeyframe\<close> passes the id of that keyframe to
  \<open>updateKeyframe\<close>, which takes the first keyframe of any track with that id; ids are
  \<open>'kf_' + Date.now()\<close>, so keyframes made within one millisecond share theirs. Here the
  keyframe of \<open>track_8\<close> at frame 5 keeps \<open>x = 2\<close>, the properties \<open>x = 9\<close> land in the
  keyframe of \<open>track_7\<close>, and the keyframe returned is the one of \<open>track_7\<close>.
\<close>

theorem addKeyframe_same_millisecond_merges_elsewhere:
  "map_option (xValues ''track_8'') (resultState sameMillisecond) = Some [(''kf_1000'', 5, Some 2)]
   \<and> map_option (xValues ''track_7'') (resultState sameMillisecond) = Some [(''kf_1000'', 5, Some 9)]
   \<and> map_option kf_boneId (resultKeyframe sameMillisecond) = Some ''bone_a''"
  by (simp add: sameMillisecond_def andThen_def addKeyframe_def updateKeyframe_def twoTracks_eq
      digitsOf_examples resultState_def resultKeyframe_def xValues_def keyframesOf_def
      mergeProps_def Let_def)

subsection \<open>Keyframes looked up by id\<close>

lemma find_append_hit:
  "\<forall>x\<in>set pre. \<not> P x \<Longrightarrow> P k \<Longrightarrow> find P (pre @ k # post) = Some k"
  by (induction pre) auto

lemma updateFirst_append_hit:
  "\<forall>x\<in>set pre. \<not> P x \<Longrightarrow> P k \<Longrightarrow> updateFirst P g (pre @ k # post) = pre @ g k # post"
  by (induction pre) auto



lemma find_miss: "\<forall>x\<in>set xs. \<not> P x \<Longrightarrow> find P xs = None"
  by (induction xs) auto




lemma updateKeyframeIn_hit:
  assumes "\<forall>t'\<in>set pre. \<forall>k'\<in>set (keyframes t'). kf_id k' \<noteq> kid"
    and "keyframes t = kpre @ k # kpost"
    and "\<forall>k'\<in>set kpre. kf_id k' \<noteq> kid" and "kf_id k = kid"
  shows "updateKeyframeIn kid p (pre @ t # post) =
     Some (pre @ t\<lparr>keyframes := kpre @ k\<lparr>properties := mergeProps (properties k) p\<rparr> # kpost\<rparr> # post,
           k\<lparr>properties := mergeProps (properties k) p\<rparr>)"
  using assms(1)
proof (induction pre)
  case Nil
  have "find (\<lambda>k. kf_id k = kid) (keyframes t) = Some k"
    unfolding assms(2) using assms(3,4) by (intro find_append_hit) auto
  moreover have "updateFirst (\<lambda>k. kf_id k = kid) (\<lambda>k. k\<lparr>properties := mergeProps (properties k) p\<rparr>)
      (keyframes t) = kpre @ k\<lparr>properties := mergeProps (properties k) p\<rparr> # kpost"
    unfolding assms(2) using assms(3,4) by (intro updateFirst_append_hit) auto
  ultimately show ?case by simp
next
  case (Cons a pre)
  then show ?case by (simp add: find_miss)
qed




subsection \<open>What \<open>addKeyframe\<close> keeps\<close>

text \<open>
  Whatever the identifiers are, \<open>addKeyframe\<close> fails on an unknown track only, keeps the
  keyframes of every track in strictly ascending order of frame, and leaves a keyframe
  at the frame it was called for; two calls at one frame leave exactly one keyframe
  there. Where the id of the keyframe found is not the id of an earlier keyframe, the
  properties are merged into the keyframe found.
\<close>

lemma addKeyframe_unknown_track:
  "find (\<lambda>t. track_id t = trackId) (tracks s) = None \<Longrightarrow>
     addKeyframe now trackId f p s = Inl TrackNotFound"
  by (simp add: addKeyframe_def)

lemma frames_updateFirst:
  "map frame (updateFirst P (\<lambda>k. k\<lparr>properties := g k\<rparr>) kfs) = map frame kfs"
  by (induction kfs) auto

lemma updateKeyframeIn_frames:
  "updateKeyframeIn kid p ts = Some (ts', k) \<Longrightarrow>
     map (\<lambda>t. (track_id t, map frame (keyframes t))) ts'
       = map (\<lambda>t. (track_id t, map frame (keyframes t))) ts"
proof (induction ts arbitrary: ts')
  case Nil
  then show ?case by simp
next
  case (Cons t ts)
  show ?case
  proof (cases "find (\<lambda>k. kf_id k = kid) (keyframes t)")
    case None
    with Cons.prems obtain ts0 where "updateKeyframeIn kid p ts = Some (ts0, k)" "ts' = t # ts0"
      by (auto split: option.splits)
    with Cons.IH show ?thesis by simp
  next
    case (Some a)
    with Cons.prems show ?thesis by (auto simp: frames_updateFirst)
  qed
qed

lemma updateKeyframeIn_present:
  "t \<in> set ts \<Longrightarrow> k \<in> set (keyframes t) \<Longrightarrow> updateKeyframeIn (kf_id k) p ts \<noteq> None"
proof (induction ts)
  case Nil
  then show ?case by simp
next
  case (Cons a ts)
  show ?case
  proof (cases "find (\<lambda>k'. kf_id k' = kf_id k) (keyframes a)")
    case None
    with Cons.prems have "t \<in> set ts" by (auto simp: find_None_iff)
    with Cons.IH Cons.prems(2) None show ?thesis by (auto split: option.splits)
  next
    case (Some b)
    then show ?thesis by simp
  qed
qed

lemma frames_zip_eq:
  assumes "map (\<lambda>t. (track_id t, map frame (keyframes t))) ts'
             = map (\<lambda>t. (track_id t, map frame (keyframes t))) ts"
  shows "(\<forall>t\<in>set ts'. sorted_wrt (<) (map frame (keyframes t)))
           \<longleftrightarrow> (\<forall>t\<in>set ts. sorted_wrt (<) (map frame (keyframes t)))"
    and "map_option (\<lambda>t. map frame (keyframes t)) (find (\<lambda>t. track_id t = tid) ts')
           = map_option (\<lambda>t. map frame (keyframes t)) (find (\<lambda>t. track_id t = tid) ts)"
  using assms
proof (induction ts arbitrary: ts')
  case Nil
  { case 1 then show ?case by simp }
  { case 2 then show ?case by simp }
next
  case (Cons a ts)
  { case 1 then show ?case using Cons.IH(1) by (cases ts') auto }
  { case 2 then show ?case using Cons.IH(2) by (cases ts') auto }
qed

lemma strict_insort:
  assumes "sorted_wrt (<) (map frame kfs)" and "\<forall>k'\<in>set kfs. frame k' \<noteq> frame k"
  shows "sorted_wrt (<) (map frame (sort_key frame (kfs @ [k])))"
proof -
  have "distinct (map frame (sort_key frame (kfs @ [k]))) = distinct (map frame (kfs @ [k]))"
    by (simp only: distinct_map distinct_sort set_sort)
  moreover have "distinct (map frame (kfs @ [k]))"
    using assms by (auto simp: strict_sorted_iff)
  ultimately have "distinct (map frame (sort_key frame (kfs @ [k])))" by simp
  then show ?thesis by (simp add: strict_sorted_iff)
qed

lemma updateFirst_track:
  assumes "find (\<lambda>t. track_id t = tid) ts = Some track"
  shows "set (updateFirst (\<lambda>t. track_id t = tid) g ts) \<subseteq> insert (g track) (set ts)"
    and "track_id (g track) = tid \<Longrightarrow>
         find (\<lambda>t. track_id t = tid) (updateFirst (\<lambda>t. track_id t = tid) g ts) = Some (g track)"
  using assms by (induction ts) (auto split: if_splits)

lemma addKeyframe_keeps_frames_ascending:
  assumes asc: "framesAscending s" and add: "addKeyframe now trackId f p s = Inr (s', k)"
  shows "framesAscending s' \<and> f \<in> set (map frame (keyframesOf trackId s'))"
proof -
  from add obtain track where tr: "find (\<lambda>t. track_id t = trackId) (tracks s) = Some track"
    by (auto simp: addKeyframe_def split: option.splits)
  then have mem: "track \<in> set (tracks s)" and tid: "track_id track = trackId"
    by (auto simp: find_Some_iff)
  show ?thesis
  proof (cases "find (\<lambda>kf. frame kf = f) (keyframes track)")
    case (Some existing)
    then have ex: "existing \<in> set (keyframes track)" "frame existing = f"
      by (auto simp: find_Some_iff)
    from add tr Some obtain ts' where u: "updateKeyframeIn (kf_id existing) p (tracks s) = Some (ts', k)"
      and s': "s' = s\<lparr>tracks := ts'\<rparr>"
      by (auto simp: addKeyframe_def updateKeyframe_def split: option.splits)
    note fr = frames_zip_eq[OF updateKeyframeIn_frames[OF u]]
    have "framesAscending s'" using asc fr(1) s' by (simp add: framesAscending_def)
    moreover have "f \<in> set (map frame (keyframesOf trackId s'))"
    proof -
      from fr(2)[of trackId] tr obtain t' where
        "find (\<lambda>t. track_id t = trackId) ts' = Some t'"
        "map frame (keyframes t') = map frame (keyframes track)"
        by (cases "find (\<lambda>t. track_id t = trackId) ts'") auto
      with ex s' show ?thesis by (force simp: keyframesOf_def)
    qed
    ultimately show ?thesis by simp
  next
    case None
    define kf where "kf = \<lparr>kf_id = ''kf_'' @ digitsOf now, frame = f,
       kf_boneId = track_boneId track,
       properties = (case p of None \<Rightarrow> Map.empty | Some q \<Rightarrow> q), easing = ''linear''\<rparr>"
    define g :: "Track \<Rightarrow> Track"
      where "g = (\<lambda>t. t\<lparr>keyframes := sort_key frame (keyframes t @ [kf])\<rparr>)"
    from add tr None have s': "s' = s\<lparr>tracks := updateFirst (\<lambda>t. track_id t = trackId) g (tracks s)\<rparr>"
      by (auto simp add: addKeyframe_def Let_def kf_def g_def)
    have nf: "\<forall>k'\<in>set (keyframes track). frame k' \<noteq> frame kf"
      using None by (auto simp: find_None_iff kf_def)
    have st: "sorted_wrt (<) (map frame (keyframes track))"
      using asc mem by (simp add: framesAscending_def)
    have gs: "sorted_wrt (<) (map frame (keyframes (g track)))"
      using strict_insort[OF st nf] by (simp add: g_def)
    have "framesAscending s'"
      unfolding framesAscending_def s'
      using updateFirst_track(1)[OF tr, of g] asc gs by (auto simp: framesAscending_def)
    moreover have "find (\<lambda>t. track_id t = trackId)
        (updateFirst (\<lambda>t. track_id t = trackId) g (tracks s)) = Some (g track)"
      using updateFirst_track(2)[OF tr, of g] tid by (simp add: g_def)
    then have "f \<in> set (map frame (keyframesOf trackId s'))"
      by (simp add: keyframesOf_def s' g_def kf_def)
    ultimately show ?thesis by simp
  qed
qed

lemma addKeyframe_known_track_succeeds:
  assumes "find (\<lambda>t. track_id t = trackId) (tracks s) = Some track"
  shows "\<exists>s' k. addKeyframe now trackId f p s = Inr (s', k)"
proof (cases "find (\<lambda>kf. frame kf = f) (keyframes track)")
  case None
  with assms show ?thesis by (simp add: addKeyframe_def Let_def)
next
  case (Some existing)
  from assms have "track \<in> set (tracks s)" by (auto simp: find_Some_iff)
  moreover from Some have "existing \<in> set (keyframes track)" by (auto simp: find_Some_iff)
  ultimately have "updateKeyframeIn (kf_id existing) p (tracks s) \<noteq> None"
    by (rule updateKeyframeIn_present)
  with assms Some show ?thesis
    by (auto simp: addKeyframe_def updateKeyframe_def split: option.splits)
qed

lemma one_keyframe_per_frame:
  "sorted_wrt (<) (map frame kfs) \<Longrightarrow> f \<in> set (map frame kfs) \<Longrightarrow>
     length (filter (\<lambda>k. frame k = f) kfs) = 1"
proof (induction kfs)
  case Nil
  then show ?case by simp
next
  case (Cons a kfs)
  show ?case
  proof (cases "frame a = f")
    case True
    with Cons.prems(1) have "filter (\<lambda>k. frame k = f) kfs = []"
      by (auto simp: filter_empty_conv)
    with True show ?thesis by simp
  next
    case False
    with Cons show ?thesis by auto
  qed
qed

lemma addKeyframe_twice_one_keyframe:
  assumes "framesAscending s" and "find (\<lambda>t. track_id t = trackId) (tracks s) \<noteq> None"
  shows "\<exists>s1 k1 s2 k2.
      addKeyframe now1 trackId f p1 s = Inr (s1, k1)
    \<and> addKeyframe now2 trackId f p2 s1 = Inr (s2, k2)
    \<and> length (filter (\<lambda>k. frame k = f) (keyframesOf trackId s2)) = 1
    \<and> framesAscending s2"
proof -
  from assms(2) obtain track where "find (\<lambda>t. track_id t = trackId) (tracks s) = Some track"
    by auto
  from addKeyframe_known_track_succeeds[OF this] obtain s1 k1 where
    a1: "addKeyframe now1 trackId f p1 s = Inr (s1, k1)" by blast
  note i1 = addKeyframe_keeps_frames_ascending[OF assms(1) a1]
  then have "keyframesOf trackId s1 \<noteq> []" by auto
  then obtain track1 where "find (\<lambda>t. track_id t = trackId) (tracks s1) = Some track1"
    by (auto simp: keyframesOf_def split: option.splits)
  from addKeyframe_known_track_succeeds[OF this] obtain s2 k2 where
    a2: "addKeyframe now2 trackId f p2 s1 = Inr (s2, k2)" by blast
  from i1 have "framesAscending s1" by simp
  note i2 = addKeyframe_keeps_frames_ascending[OF this a2]
  have "sorted_wrt (<) (map frame (keyframesOf trackId s2))"
    using i2 by (auto simp: framesAscending_def keyframesOf_def find_Some_iff split: option.splits)
  with i2 have "length (filter (\<lambda>k. frame k = f) (keyframesOf trackId s2)) = 1"
    by (intro one_keyframe_per_frame) auto
  with a1 a2 i2 show ?thesis by blast
qed

lemma addKeyframe_merges_when_id_is_unique:
  assumes "tracks s = pre @ track # post"
    and "\<forall>t\<in>set pre. track_id t \<noteq> trackId" and "track_id track = trackId"
    and "keyframes track = kpre @ existing # kpost"
    and "\<forall>k\<in>set kpre. frame k \<noteq> f" and "frame existing = f"
    and "\<forall>t\<in>set pre. \<forall>k\<in>set (keyframes t). kf_id k \<noteq> kf_id existing"
    and "\<forall>k\<in>set kpre. kf_id k \<noteq> kf_id existing"
  shows "addKeyframe now trackId f p s =
    Inr (s\<lparr>tracks := pre @
              track\<lparr>keyframes := kpre @
                 existing\<lparr>properties := mergeProps (properties existing) p\<rparr> # kpost\<rparr> # post\<rparr>,
         existing\<lparr>properties := mergeProps (properties existing) p\<rparr>)"
proof -
  have 1: "find (\<lambda>t. track_id t = trackId) (tracks s) = Some track"
    unfolding assms(1) using assms(2,3) by (intro find_append_hit) auto
  have 2: "find (\<lambda>kf. frame kf = f) (keyframes track) = Some existing"
    unfolding assms(4) using assms(5,6) by (intro find_append_hit) auto
  from updateKeyframeIn_hit[OF assms(7) assms(4) assms(8) refl, of p post] 1 2 assms(1)
  show ?thesis by (simp add: addKeyframe_def updateKeyframe_def)
qed

section \<open>Properties of the bone system\<close>

subsection \<open>Forests\<close>

lemma comparable_ancestors:
  assumes "(a, d) \<in> R\<^sup>*" and "(b, d) \<in> R\<^sup>*" and "uniqueParent R"
  shows "(a, b) \<in> R\<^sup>* \<or> (b, a) \<in> R\<^sup>*"
  using assms(1,2)
proof (induction arbitrary: rule: rtrancl_induct)
  case base
  then show ?case by simp
next
  case (step y z)
  from step.prems show ?case
  proof (cases rule: rtranclE)
    case base
    with step.hyps show ?thesis by auto
  next
    case (step y')
    with \<open>(y, z) \<in> R\<close> assms(3) have "y' = y" by (auto simp: uniqueParent_def)
    with step step.IH show ?thesis by simp
  qed
qed

lemma rank_rtrancl:
  assumes "\<forall>p c. (p, c) \<in> R \<longrightarrow> h c < (h p :: nat)" and "(a, b) \<in> R\<^sup>*"
  shows "h b \<le> h a"
  using assms(2)
proof (induction rule: rtrancl_induct)
  case base
  then show ?case by simp
next
  case (step y z)
  with assms(1) have "h z < h y" by blast
  with step.IH show ?case by simp
qed

lemma siblings_disjoint:
  assumes u: "uniqueParent R" and r: "\<forall>p c. (p, c) \<in> R \<longrightarrow> h c < (h p :: nat)"
    and "(p, c1) \<in> R" and "(p, c2) \<in> R" and "c1 \<noteq> c2"
  shows "R\<^sup>* `` {c1} \<inter> R\<^sup>* `` {c2} = {}"
proof -
  have no: "\<not> (x, y) \<in> R\<^sup>*" if "(p, x) \<in> R" "(p, y) \<in> R" "x \<noteq> y" for x y
  proof
    assume "(x, y) \<in> R\<^sup>*"
    then show False
    proof (cases rule: rtranclE)
      case base
      with that show ?thesis by simp
    next
      case (step z)
      with that(2) u have "z = p" by (auto simp: uniqueParent_def)
      with step have "h p \<le> h x" using rank_rtrancl[OF r] by blast
      moreover from that(1) r have "h x < h p" by blast
      ultimately show ?thesis by simp
    qed
  qed
  show ?thesis
  proof (rule ccontr)
    assume "R\<^sup>* `` {c1} \<inter> R\<^sup>* `` {c2} \<noteq> {}"
    then obtain d where "(c1, d) \<in> R\<^sup>*" "(c2, d) \<in> R\<^sup>*" by auto
    from comparable_ancestors[OF this u] no[OF assms(3,4,5)] no[OF assms(4,3)] assms(5)
    show False by auto
  qed
qed

lemma not_in_own_subtrees:
  assumes r: "\<forall>p c. (p, c) \<in> R \<longrightarrow> h c < (h p :: nat)" and "(p, c) \<in> R"
  shows "p \<notin> R\<^sup>* `` {c}"
proof
  assume "p \<in> R\<^sup>* `` {c}"
  then have "h p \<le> h c" using rank_rtrancl[OF r] by blast
  with assms show False by fastforce
qed

lemma subtree_unfold: "R\<^sup>* `` {i} = insert i (\<Union>c\<in>R `` {i}. R\<^sup>* `` {c})"
proof (intro set_eqI iffI)
  fix d assume "d \<in> R\<^sup>* `` {i}"
  then have "(i, d) \<in> R\<^sup>*" by simp
  then show "d \<in> insert i (\<Union>c\<in>R `` {i}. R\<^sup>* `` {c})"
    by (cases rule: converse_rtranclE) auto
next
  fix d assume "d \<in> insert i (\<Union>c\<in>R `` {i}. R\<^sup>* `` {c})"
  then show "d \<in> R\<^sup>* `` {i}" by (auto intro: converse_rtrancl_into_rtrancl)
qed

subsection \<open>Translation of a subtree\<close>

lemma shifted_empty [simp]: "shifted {} dx dy bs = bs"
  by (simp add: shifted_def)

lemma shifted_union:
  "A \<inter> B = {} \<Longrightarrow> shifted A dx dy (shifted B dx dy bs) = shifted (A \<union> B) dx dy bs"
  by (auto simp: shifted_def fun_eq_iff)

lemma shifted_absent: "bs c = None \<Longrightarrow> shifted (insert c A) dx dy bs = shifted A dx dy bs"
  by (auto simp: shifted_def fun_eq_iff)

lemma shifted_single: "bs c = Some b \<Longrightarrow> bs(c \<mapsto> translate dx dy b) = shifted {c} dx dy bs"
  by (auto simp: shifted_def fun_eq_iff)

lemma children_translate [simp]: "children (translate dx dy b) = children b"
  by (simp add: translate_def)

lemma childRel_shifted [simp]: "childRel (shifted A dx dy bs) = childRel bs"
  by (auto simp: childRel_def shifted_def split: if_splits)

lemma subtree_shifted [simp]: "subtree (shifted A dx dy bs) i = subtree bs i"
  by (simp add: subtree_def)

lemma childRel_image: "childRel bs `` {i} = set (childrenOf bs i)"
  by (cases "bs i") (auto simp: childRel_def childrenOf_def)

lemma subtree_absent: "bs i = None \<Longrightarrow> subtree bs i = {i}"
  unfolding subtree_def by (subst subtree_unfold) (simp add: childRel_image childrenOf_def)

lemma subtree_children:
  "bs i = Some b \<Longrightarrow> subtree bs i = insert i (\<Union>c\<in>set (children b). subtree bs c)"
  unfolding subtree_def by (subst subtree_unfold) (simp add: childRel_image childrenOf_def)

lemma uniqueParent_childRel: "childrenLinked bs \<Longrightarrow> uniqueParent (childRel bs)"
proof -
  assume cl: "childrenLinked bs"
  have "p = q" if "(p, c) \<in> childRel bs" "(q, c) \<in> childRel bs" for p q c
  proof -
    from that obtain b b' where b: "bs p = Some b" "c \<in> set (children b)"
      and b': "bs q = Some b'" "c \<in> set (children b')"
      by (auto simp: childRel_def)
    from cl b obtain cb where "bs c = Some cb" "parentId cb = Some p"
      unfolding childrenLinked_def by blast
    moreover from cl b' obtain cb' where "bs c = Some cb'" "parentId cb' = Some q"
      unfolding childrenLinked_def by blast
    ultimately show ?thesis by simp
  qed
  then show ?thesis unfolding uniqueParent_def by blast
qed

text \<open>
  \<open>moveChildren\<close> translates the descendants of a bone, each of them once: the subtrees of
  the children of a bone are disjoint, and the bone is in none of them.
\<close>

lemma moveChildren_moveEach_shift:
  "\<forall>h. uniqueParent (childRel bs) \<longrightarrow> ranked h bs
       \<longrightarrow> (\<forall>j b. bs j = Some b \<longrightarrow> distinct (children b)) \<longrightarrow> h i < n
       \<longrightarrow> moveChildren n i dx dy bs = Some (shifted (subtree bs i - {i}) dx dy bs)"
  and "\<forall>h p. uniqueParent (childRel bs') \<longrightarrow> ranked h bs'
       \<longrightarrow> (\<forall>j b. bs' j = Some b \<longrightarrow> distinct (children b))
       \<longrightarrow> distinct cs \<longrightarrow> (\<forall>c\<in>set cs. (p, c) \<in> childRel bs' \<and> h c < m)
       \<longrightarrow> moveEach m cs dx' dy' bs' = Some (shifted (\<Union>c\<in>set cs. subtree bs' c) dx' dy' bs')"
proof (induction n i dx dy bs and m cs dx' dy' bs' rule: moveChildren_moveEach.induct)
  case (1 i dx dy bs)
  then show ?case by simp
next
  case (2 n i dx dy bs)
  show ?case
  proof (intro allI impI)
    fix h
    assume u: "uniqueParent (childRel bs)" and r: "ranked h bs"
      and d: "\<forall>j b. bs j = Some b \<longrightarrow> distinct (children b)" and hi: "h i < Suc n"
    show "moveChildren (Suc n) i dx dy bs = Some (shifted (subtree bs i - {i}) dx dy bs)"
    proof (cases "bs i")
      case None
      then show ?thesis by (simp add: subtree_absent)
    next
      case (Some bone)
      have rel: "\<forall>c\<in>set (children bone). (i, c) \<in> childRel bs \<and> h c < n"
        using Some r hi by (fastforce simp: childRel_def ranked_def)
      from "2.IH"[OF Some] u r d Some rel
      have "moveEach n (children bone) dx dy bs =
              Some (shifted (\<Union>c\<in>set (children bone). subtree bs c) dx dy bs)"
        by blast
      moreover have "subtree bs i - {i} = (\<Union>c\<in>set (children bone). subtree bs c)"
      proof -
        have "i \<notin> subtree bs c" if "c \<in> set (children bone)" for c
          unfolding subtree_def
          using not_in_own_subtrees[of "childRel bs" h i c] r rel that
          by (auto simp: ranked_def)
        then show ?thesis using subtree_children[of bs i bone, OF Some] by auto
      qed
      ultimately show ?thesis using Some by simp
    qed
  qed
next
  case (3 n dx dy bs)
  then show ?case by simp
next
  case (4 n c cs dx dy bs)
  show ?case
  proof (intro allI impI)
    fix h p
    assume u: "uniqueParent (childRel bs)" and r: "ranked h bs"
      and d: "\<forall>j b. bs j = Some b \<longrightarrow> distinct (children b)"
      and dc: "distinct (c # cs)" and rel: "\<forall>c'\<in>set (c # cs). (p, c') \<in> childRel bs \<and> h c' < n"
    have rr: "\<forall>p c. (p, c) \<in> childRel bs \<longrightarrow> h c < h p" using r by (simp add: ranked_def)
    have disj: "subtree bs c \<inter> (\<Union>c'\<in>set cs. subtree bs c') = {}"
    proof -
      have "subtree bs c \<inter> subtree bs c' = {}" if "c' \<in> set cs" for c'
        unfolding subtree_def
        using siblings_disjoint[OF u rr, of p c c'] rel dc that by auto
      then show ?thesis by auto
    qed
    show "moveEach n (c # cs) dx dy bs =
            Some (shifted (\<Union>c'\<in>set (c # cs). subtree bs c') dx dy bs)"
    proof (cases "bs c")
      case None
      from "4.IH"(1)[OF None] u r d dc rel
      have "moveEach n cs dx dy bs = Some (shifted (\<Union>c'\<in>set cs. subtree bs c') dx dy bs)"
        by (simp, blast)
      then show ?thesis using None
        by (simp add: subtree_absent shifted_absent)
    next
      case (Some child)
      let ?bs1 = "bs(c \<mapsto> child\<lparr>bone_x := bone_x child + dx, bone_y := bone_y child + dy\<rparr>)"
      have bs1: "?bs1 = shifted {c} dx dy bs"
        using shifted_single[of bs c child dx dy, OF Some] by (simp add: translate_def)
      have d1: "\<forall>j b. ?bs1 j = Some b \<longrightarrow> distinct (children b)"
        using d Some by auto
      have hc: "h c < n" using rel by simp
      have "moveChildren n c dx dy ?bs1 = Some (shifted (subtree ?bs1 c - {c}) dx dy ?bs1)"
        using "4.IH"(2)[OF Some] u r d1 hc unfolding bs1
        by (simp add: ranked_def)
      then have mc: "moveChildren n c dx dy ?bs1 = Some (shifted (subtree bs c) dx dy bs)"
        unfolding bs1 using shifted_union[of "subtree bs c - {c}" "{c}" dx dy bs]
        by (simp add: insert_absorb subtree_def)
      let ?bs2 = "shifted (subtree bs c) dx dy bs"
      have d2: "\<forall>j b. ?bs2 j = Some b \<longrightarrow> distinct (children b)"
        using d by (auto simp: shifted_def split: if_splits)
      have "moveEach n cs dx dy ?bs2 = Some (shifted (\<Union>c'\<in>set cs. subtree ?bs2 c') dx dy ?bs2)"
        using "4.IH"(3)[OF Some mc] u r d2 dc rel
        by (simp add: ranked_def, blast)
      then have "moveEach n cs dx dy ?bs2 =
          Some (shifted ((\<Union>c'\<in>set cs. subtree bs c') \<union> subtree bs c) dx dy bs)"
        using shifted_union[of "\<Union>c'\<in>set cs. subtree bs c'" "subtree bs c" dx dy bs] disj
        by (simp add: Int_commute)
      then show ?thesis using Some mc by (simp add: Un_commute)
    qed
  qed
qed

subsection \<open>Operations that change the pose only\<close>

lemma poseOnly_refl [simp]: "poseOnly bs bs"
proof -
  have "\<exists>x y a. b = b\<lparr>bone_x := x, bone_y := y, angle := a\<rparr>" for b :: BoneData
    by (rule exI[of _ "bone_x b"], rule exI[of _ "bone_y b"], rule exI[of _ "angle b"]) simp
  then show ?thesis by (auto simp: poseOnly_def split: option.splits)
qed

lemma poseOnly_trans: "poseOnly a b \<Longrightarrow> poseOnly b c \<Longrightarrow> poseOnly a c"
  unfolding poseOnly_def
proof (intro allI)
  fix i
  assume ab: "\<forall>i. case a i of None \<Rightarrow> b i = None
      | Some x \<Rightarrow> \<exists>xa y aa. b i = Some (x\<lparr>bone_x := xa, bone_y := y, angle := aa\<rparr>)"
    and bc: "\<forall>i. case b i of None \<Rightarrow> c i = None
      | Some x \<Rightarrow> \<exists>xa y aa. c i = Some (x\<lparr>bone_x := xa, bone_y := y, angle := aa\<rparr>)"
  show "case a i of None \<Rightarrow> c i = None
      | Some x \<Rightarrow> \<exists>xa y aa. c i = Some (x\<lparr>bone_x := xa, bone_y := y, angle := aa\<rparr>)"
  proof (cases "a i")
    case None
    with ab[rule_format, of i] bc[rule_format, of i] show ?thesis by simp
  next
    case (Some x)
    with ab[rule_format, of i] obtain x1 y1 a1 where
      b: "b i = Some (x\<lparr>bone_x := x1, bone_y := y1, angle := a1\<rparr>)" by auto
    with bc[rule_format, of i] obtain x2 y2 a2 where
      "c i = Some (x\<lparr>bone_x := x1, bone_y := y1, angle := a1\<rparr>\<lparr>bone_x := x2, bone_y := y2, angle := a2\<rparr>)"
      by auto
    then have "c i = Some (x\<lparr>bone_x := x2, bone_y := y2, angle := a2\<rparr>)" by simp
    with Some show ?thesis by auto
  qed
qed

lemma poseOnly_update:
  assumes "bs i = Some b"
  shows "poseOnly bs (bs(i \<mapsto> b\<lparr>bone_x := x, bone_y := y\<rparr>))"
    and "poseOnly bs (bs(i \<mapsto> b\<lparr>angle := a\<rparr>))"
proof -
  have r: "\<exists>x y a. c = c\<lparr>bone_x := x, bone_y := y, angle := a\<rparr>" for c :: BoneData
    by (rule exI[of _ "bone_x c"], rule exI[of _ "bone_y c"], rule exI[of _ "angle c"]) simp
  have "\<exists>x' y' a'. b\<lparr>bone_x := x, bone_y := y\<rparr> = b\<lparr>bone_x := x', bone_y := y', angle := a'\<rparr>"
    by (rule exI[of _ x], rule exI[of _ y], rule exI[of _ "angle b"]) simp
  then show "poseOnly bs (bs(i \<mapsto> b\<lparr>bone_x := x, bone_y := y\<rparr>))"
    using assms r by (auto simp: poseOnly_def split: option.splits)
  have "\<exists>x' y' a'. b\<lparr>angle := a\<rparr> = b\<lparr>bone_x := x', bone_y := y', angle := a'\<rparr>"
    by (rule exI[of _ "bone_x b"], rule exI[of _ "bone_y b"], rule exI[of _ a]) simp
  then show "poseOnly bs (bs(i \<mapsto> b\<lparr>angle := a\<rparr>))"
    using assms r by (auto simp: poseOnly_def split: option.splits)
qed

lemma poseOnly_lookup:
  "poseOnly bs bs' \<Longrightarrow> bs i = Some b \<Longrightarrow>
     \<exists>b'. bs' i = Some b' \<and> children b' = children b \<and> parentId b' = parentId b
          \<and> bone_length b' = bone_length b \<and> bone_id b' = bone_id b"
  unfolding poseOnly_def by (erule allE[of _ i]) auto

lemma poseOnly_lookup_rev:
  "poseOnly bs bs' \<Longrightarrow> bs' i = Some b' \<Longrightarrow>
     \<exists>b. bs i = Some b \<and> children b' = children b \<and> parentId b' = parentId b
          \<and> bone_length b' = bone_length b \<and> bone_id b' = bone_id b"
  unfolding poseOnly_def by (erule allE[of _ i]) (auto split: option.splits)

lemma poseOnly_dom: "poseOnly bs bs' \<Longrightarrow> dom bs' = dom bs"
  unfolding poseOnly_def
  by (auto split: option.splits)

lemma poseOnly_childRel: "poseOnly bs bs' \<Longrightarrow> childRel bs' = childRel bs"
  unfolding childRel_def
  by (auto dest: poseOnly_lookup poseOnly_lookup_rev)

lemma updateBonePosition_poseOnly:
  "\<forall>bs'. updateBonePosition n i bs = Some bs' \<longrightarrow> poseOnly bs bs'"
  "\<forall>bs'. updateEach m cs bs0 = Some bs' \<longrightarrow> poseOnly bs0 bs'"
proof (induction n i bs and m cs bs0 rule: updateBonePosition_updateEach.induct)
  case (1 i bs)
  then show ?case by simp
next
  case (2 n i bs)
  show ?case
  proof (cases "bs i")
    case None
    then show ?thesis by simp
  next
    case (Some bone)
    have p1: "poseOnly bs (snapToParent i bone bs)"
      using poseOnly_update(1)[of bs i bone, OF Some]
      by (auto simp: snapToParent_def split: option.splits)
    show ?thesis
    proof (intro allI impI)
      fix bs' assume "updateBonePosition (Suc n) i bs = Some bs'"
      with Some "2.IH"[OF Some] have "poseOnly (snapToParent i bone bs) bs'" by simp
      with p1 show "poseOnly bs bs'" by (rule poseOnly_trans)
    qed
  qed
next
  case (3 n bs)
  then show ?case by simp
next
  case (4 n c cs bs)
  then show ?case
    by (auto split: option.splits intro: poseOnly_trans)
qed

lemma moveChildren_poseOnly:
  "\<forall>bs'. moveChildren n i dx dy bs = Some bs' \<longrightarrow> poseOnly bs bs'"
  "\<forall>bs'. moveEach m cs dx' dy' bs0 = Some bs' \<longrightarrow> poseOnly bs0 bs'"
proof (induction n i dx dy bs and m cs dx' dy' bs0 rule: moveChildren_moveEach.induct)
  case (1 i dx dy bs)
  then show ?case by simp
next
  case (2 n i dx dy bs)
  then show ?case by (cases "bs i") auto
next
  case (3 n dx dy bs)
  then show ?case by simp
next
  case (4 n c cs dx dy bs)
  show ?case
  proof (cases "bs c")
    case None
    with "4.IH"(1) show ?thesis by simp
  next
    case (Some child)
    let ?bs1 = "bs(c \<mapsto> child\<lparr>bone_x := bone_x child + dx, bone_y := bone_y child + dy\<rparr>)"
    have p1: "poseOnly bs ?bs1" using poseOnly_update(1)[of bs c child, OF Some] by simp
    show ?thesis
    proof (intro allI impI)
      fix bs' assume a: "moveEach n (c # cs) dx dy bs = Some bs'"
      then obtain bs2 where m: "moveChildren n c dx dy ?bs1 = Some bs2"
        and e: "moveEach n cs dx dy bs2 = Some bs'"
        using Some by (auto split: option.splits)
      from "4.IH"(2)[OF Some] m have "poseOnly ?bs1 bs2" by blast
      moreover from "4.IH"(3)[OF Some m] e have "poseOnly bs2 bs'" by blast
      ultimately show "poseOnly bs bs'" using p1 by (blast intro: poseOnly_trans)
    qed
  qed
qed

lemma moveBone_poseOnly: "moveBone n i pos bs = Some bs' \<Longrightarrow> poseOnly bs bs'"
proof (cases "bs i")
  case None
  assume "moveBone n i pos bs = Some bs'"
  with None show ?thesis by (simp add: moveBone_def)
next
  case (Some bone)
  assume a: "moveBone n i pos bs = Some bs'"
  let ?bs1 = "bs(i \<mapsto> bone\<lparr>bone_x := fst pos, bone_y := snd pos\<rparr>)"
  have "poseOnly bs ?bs1" using poseOnly_update(1)[of bs i bone, OF Some] by simp
  moreover from a Some have "poseOnly ?bs1 bs'"
    using moveChildren_poseOnly(1)[of n i _ _ ?bs1] by (simp add: moveBone_def Let_def)
  ultimately show ?thesis by (rule poseOnly_trans)
qed

lemma setBoneAngle_poseOnly: "setBoneAngle n i a bs = Some bs' \<Longrightarrow> poseOnly bs bs'"
proof (cases "bs i")
  case None
  assume "setBoneAngle n i a bs = Some bs'"
  with None show ?thesis by (simp add: setBoneAngle_def)
next
  case (Some bone)
  assume a: "setBoneAngle n i a bs = Some bs'"
  let ?bs1 = "bs(i \<mapsto> bone\<lparr>angle := a\<rparr>)"
  have "poseOnly bs ?bs1" using poseOnly_update(2)[of bs i bone, OF Some] by simp
  moreover from a Some have "poseOnly ?bs1 bs'"
    using updateBonePosition_poseOnly(1)[of n i ?bs1] by (simp add: setBoneAngle_def)
  ultimately show ?thesis by (rule poseOnly_trans)
qed

lemma ccdPass_poseOnly:
  "ccdPass fuel target chain js bs = Some (flag, bs') \<Longrightarrow> poseOnly bs bs'"
proof (induction js arbitrary: bs)
  case Nil
  then show ?case by simp
next
  case (Cons j js)
  from Cons.prems obtain cb where cb: "bs j = Some cb" by (auto split: option.splits)
  from Cons.prems cb obtain e where e: "getChainEnd chain bs = Some e"
    by (auto split: option.splits)
  show ?case
  proof (cases "distance e target < ikTolerance")
    case True
    with Cons.prems cb e show ?thesis by simp
  next
    case False
    define a where "a = angle cb + angleDiff cb e target"
    let ?bs1 = "bs(j \<mapsto> cb\<lparr>angle := a\<rparr>)"
    from Cons.prems cb e False obtain bs2 where
      u: "updateBonePosition fuel j ?bs1 = Some bs2" and
      r: "ccdPass fuel target chain js bs2 = Some (flag, bs')"
      by (auto simp: a_def split: option.splits)
    have "poseOnly bs ?bs1" using poseOnly_update(2)[of bs j cb, OF cb] by simp
    moreover have "poseOnly ?bs1 bs2" using updateBonePosition_poseOnly(1) u by blast
    moreover have "poseOnly bs2 bs'" using Cons.IH[OF r] .
    ultimately show ?thesis by (blast intro: poseOnly_trans)
  qed
qed

lemma ccdIterate_poseOnly:
  "ccdIterate k fuel target chain bs = Some (flag, bs') \<Longrightarrow> poseOnly bs bs'"
proof (induction k arbitrary: bs)
  case 0
  then show ?case by simp
next
  case (Suc k)
  from Suc.prems obtain f1 bs1 where p: "ccdPass fuel target chain (rev chain) bs = Some (f1, bs1)"
    by (auto split: option.splits)
  then have p1: "poseOnly bs bs1" by (rule ccdPass_poseOnly)
  show ?case
  proof (cases f1)
    case True
    with Suc.prems p p1 show ?thesis by simp
  next
    case False
    with Suc.prems p have "ccdIterate k fuel target chain bs1 = Some (flag, bs')" by simp
    from Suc.IH[OF this] p1 show ?thesis by (blast intro: poseOnly_trans)
  qed
qed

lemma solveIKRun_poseOnly: "solveIKRun n i target bs = Some (flag, bs') \<Longrightarrow> poseOnly bs bs'"
  by (auto simp: solveIKRun_def split: option.splits dest: ccdIterate_poseOnly)

lemma solveIK_poseOnly: "solveIK n i target bs = Some bs' \<Longrightarrow> poseOnly bs bs'"
  by (auto simp: solveIK_def dest: solveIKRun_poseOnly)

lemma wellFormed_poseOnly:
  assumes "wellFormed bs" and "poseOnly bs bs'"
  shows "wellFormed bs'"
proof -
  note d = poseOnly_dom[OF assms(2)] and c = poseOnly_childRel[OF assms(2)]
  have 1: "[] \<notin> dom bs'" using assms(1) d by (simp add: wellFormed_def)
  have 2: "childrenLinked bs'"
    unfolding childrenLinked_def
  proof (intro allI impI ballI)
    fix i b' c assume "bs' i = Some b'" "c \<in> set (children b')"
    with poseOnly_lookup_rev[OF assms(2)] obtain b where "bs i = Some b" "c \<in> set (children b)"
      by fastforce
    with assms(1) obtain cb where "bs c = Some cb" "parentId cb = Some i"
      unfolding wellFormed_def childrenLinked_def by blast
    with poseOnly_lookup[OF assms(2)] show "\<exists>cb. bs' c = Some cb \<and> parentId cb = Some i"
      by fastforce
  qed
  have 3: "parentsLinked bs'"
    unfolding parentsLinked_def
  proof (intro allI impI)
    fix c cb' p pb' assume a: "bs' c = Some cb' \<and> parentId cb' = Some p \<and> bs' p = Some pb'"
    with poseOnly_lookup_rev[OF assms(2), of c cb'] obtain cb where
      cb: "bs c = Some cb" "parentId cb = Some p" by auto
    from a poseOnly_lookup_rev[OF assms(2), of p pb'] obtain pb where
      pb: "bs p = Some pb" "children pb' = children pb" by auto
    from assms(1) cb pb have "c \<in> set (children pb)"
      unfolding wellFormed_def parentsLinked_def by blast
    with pb show "c \<in> set (children pb')" by simp
  qed
  have 4: "\<forall>i b. bs' i = Some b \<longrightarrow> distinct (children b)"
  proof (intro allI impI)
    fix i b' assume "bs' i = Some b'"
    with poseOnly_lookup_rev[OF assms(2), of i b'] obtain b where
      "bs i = Some b" "children b' = children b" by auto
    with assms(1) show "distinct (children b')" by (simp add: wellFormed_def)
  qed
  from assms(1) c have 5: "(\<exists>h. ranked h bs') \<and> (\<exists>d. levelled d bs')"
    by (simp add: wellFormed_def ranked_def levelled_def)
  from 1 2 3 4 5 show ?thesis by (simp add: wellFormed_def)
qed

subsection \<open>Creation keeps the hierarchy well-formed\<close>

lemma newBoneId_nonempty: "newBoneId now rnd \<noteq> []"
  by (simp add: newBoneId_def)

lemma childRel_add_root:
  "bs i = None \<Longrightarrow> children b = [] \<Longrightarrow> childRel (bs(i \<mapsto> b)) = childRel bs"
  by (auto simp: childRel_def split: if_splits)

lemma wellFormed_add_root:
  assumes wf: "wellFormed bs" and i: "bs i = None" "i \<noteq> []" and b: "children b = []"
    and nop: "\<forall>j c. bs j = Some c \<longrightarrow> parentId c \<noteq> Some i"
    and par: "getParent (bs(i \<mapsto> b)) b = None" and self: "parentId b \<noteq> Some i"
  shows "wellFormed (bs(i \<mapsto> b))"
proof -
  let ?bs = "bs(i \<mapsto> b)"
  have 1: "[] \<notin> dom ?bs" using wf i by (auto simp: wellFormed_def)
  have cl: "childrenLinked bs" and pl: "parentsLinked bs" using wf by (auto simp: wellFormed_def)
  have 2: "childrenLinked ?bs"
    unfolding childrenLinked_def
  proof (intro allI impI ballI)
    fix j c d assume a: "?bs j = Some c" "d \<in> set (children c)"
    with b have j: "j \<noteq> i" "bs j = Some c" by (auto split: if_splits)
    with cl a obtain cb where cb: "bs d = Some cb" "parentId cb = Some j"
      unfolding childrenLinked_def by blast
    with i have "d \<noteq> i" by auto
    with cb show "\<exists>cb. ?bs d = Some cb \<and> parentId cb = Some j" by simp
  qed
  have 3: "parentsLinked ?bs"
    unfolding parentsLinked_def
  proof (intro allI impI)
    fix c cb p pb assume a: "?bs c = Some cb \<and> parentId cb = Some p \<and> ?bs p = Some pb"
    show "c \<in> set (children pb)"
    proof (cases "c = i")
      case True
      with a have pp: "parentId b = Some p" "?bs p = Some pb" by auto
      with self have "p \<noteq> i" by auto
      with pp 1 have "p \<noteq> []" by auto
      with pp par show ?thesis by (simp add: getParent_def)
    next
      case False
      with a have c: "bs c = Some cb" "parentId cb = Some p" by auto
      with nop have "p \<noteq> i" by auto
      with a c pl show ?thesis unfolding parentsLinked_def by auto
    qed
  qed
  have 4: "\<forall>j c. ?bs j = Some c \<longrightarrow> distinct (children c)"
    using wf b by (auto simp: wellFormed_def)
  have 5: "(\<exists>h. ranked h ?bs) \<and> (\<exists>d. levelled d ?bs)"
    using wf childRel_add_root[of bs i b, OF i(1) b] by (simp add: wellFormed_def ranked_def levelled_def)
  from 1 2 3 4 5 show ?thesis by (simp add: wellFormed_def)
qed

lemma childRel_add_child:
  assumes "bs i = None" and "children b = []" and "bs p = Some parent"
  shows "childRel (bs(p \<mapsto> parent\<lparr>children := children parent @ [i]\<rparr>, i \<mapsto> b))
           = insert (p, i) (childRel bs)"
  using assms by (auto simp: childRel_def split: if_splits)

lemma wellFormed_add_child:
  assumes wf: "wellFormed bs" and i: "bs i = None" "i \<noteq> []" and b: "children b = []"
    and nop: "\<forall>j c. bs j = Some c \<longrightarrow> parentId c \<noteq> Some i"
    and par: "parentId b = Some p" "bs p = Some parent"
  shows "wellFormed (bs(p \<mapsto> parent\<lparr>children := children parent @ [i]\<rparr>, i \<mapsto> b))"
proof -
  let ?bs = "bs(p \<mapsto> parent\<lparr>children := children parent @ [i]\<rparr>, i \<mapsto> b)"
  have pi: "p \<noteq> i" using i par by auto
  have 1: "[] \<notin> dom ?bs" using wf i par by (auto simp: wellFormed_def)
  have cl: "childrenLinked bs" and pl: "parentsLinked bs" using wf by (auto simp: wellFormed_def)
  have notlisted: "i \<notin> set (children c)" if "bs j = Some c" for j c
    using cl that i unfolding childrenLinked_def by fastforce
  have 2: "childrenLinked ?bs"
    unfolding childrenLinked_def
  proof (intro allI impI ballI)
    fix j c d assume a: "?bs j = Some c" "d \<in> set (children c)"
    with b have ji: "j \<noteq> i" by (auto split: if_splits)
    show "\<exists>cb. ?bs d = Some cb \<and> parentId cb = Some j"
    proof (cases "d = i")
      case True
      with a ji notlisted have "j = p" by (auto split: if_splits)
      with True par show ?thesis by simp
    next
      case False
      with a ji par obtain c0 where "bs j = Some c0" "d \<in> set (children c0)"
        by (auto split: if_splits)
      with cl obtain cb where cb: "bs d = Some cb" "parentId cb = Some j"
        unfolding childrenLinked_def by blast
      show ?thesis
      proof (cases "d = p")
        case True
        with cb par False show ?thesis by simp
      next
        case F2: False
        with cb False show ?thesis by simp
      qed
    qed
  qed
  have 3: "parentsLinked ?bs"
    unfolding parentsLinked_def
  proof (intro allI impI)
    fix c cb q qb assume a: "?bs c = Some cb \<and> parentId cb = Some q \<and> ?bs q = Some qb"
    show "c \<in> set (children qb)"
    proof (cases "c = i")
      case True
      with a par pi show ?thesis by auto
    next
      case False
      with a par(2) obtain cb0 where c: "bs c = Some cb0" "parentId cb0 = Some q"
        by (auto split: if_splits)
      with nop have qi: "q \<noteq> i" by auto
      show ?thesis
      proof (cases "q = p")
        case True
        with c par(2) pl have "c \<in> set (children parent)"
          unfolding parentsLinked_def by blast
        moreover from a True pi have "qb = parent\<lparr>children := children parent @ [i]\<rparr>" by simp
        ultimately show ?thesis by simp
      next
        case F2: False
        with a qi have "bs q = Some qb" by simp
        with c pl show ?thesis unfolding parentsLinked_def by blast
      qed
    qed
  qed
  have 4: "\<forall>j c. ?bs j = Some c \<longrightarrow> distinct (children c)"
    using wf b par notlisted by (auto simp: wellFormed_def)
  from wf obtain h d where h: "ranked h bs" and d: "levelled d bs" by (auto simp: wellFormed_def)
  note cr = childRel_add_child[of bs i b p parent, OF i(1) b par(2)]
  have edges: "c \<noteq> i \<and> q \<noteq> i" if "(q, c) \<in> childRel bs" for q c
    using that i notlisted by (auto simp: childRel_def)
  have "ranked (\<lambda>j. if j = i then 0 else Suc (h j)) ?bs"
    unfolding ranked_def cr using h edges pi by (auto simp: ranked_def)
  moreover have "levelled (d(i := Suc (d p))) ?bs"
    unfolding levelled_def cr using d edges pi by (auto simp: levelled_def)
  ultimately have 5: "(\<exists>h. ranked h ?bs) \<and> (\<exists>d. levelled d ?bs)" by blast
  from 1 2 3 4 5 show ?thesis by (simp add: wellFormed_def)
qed

lemma createBone_wellFormed:
  assumes wf: "wellFormed bs" and fr: "freshId (newBoneId now rnd) pid bs"
  shows "wellFormed (fst (createBone now rnd name x y len ang ty pid bs))"
proof -
  define i where "i = newBoneId now rnd"
  define bone where "bone = \<lparr>bone_id = i, bone_name = name, bone_x = x, bone_y = y,
     bone_length = len, angle = ang, color = ''#00ff88'', thickness = 3, parentId = pid,
     children = [], bone_type = ty, isSelected = False\<rparr>"
  have i: "bs i = None" "i \<noteq> []" and nop: "\<forall>j c. bs j = Some c \<longrightarrow> parentId c \<noteq> Some i"
    and self: "pid \<noteq> Some i"
    using fr newBoneId_nonempty by (auto simp: freshId_def i_def)
  have b: "children bone = []" "parentId bone = pid" by (simp_all add: bone_def)
  show ?thesis
  proof (cases "getParent (bs(i \<mapsto> bone)) bone")
    case None
    then have "fst (createBone now rnd name x y len ang ty pid bs) = bs(i \<mapsto> bone)"
      unfolding createBone_def Let_def i_def[symmetric] bone_def[symmetric] by simp
    moreover have "wellFormed (bs(i \<mapsto> bone))"
      using wellFormed_add_root[of bs i bone, OF wf i b(1) nop None] self b by simp
    ultimately show ?thesis by simp
  next
    case (Some pp)
    obtain p parent where pp: "pp = (p, parent)" by (cases pp)
    with Some b self have p: "pid = Some p" "p \<noteq> i" "bs p = Some parent"
      by (auto simp: getParent_def split: option.splits if_splits)
    let ?b' = "bone\<lparr>bone_x := fst (getBoneEnd parent), bone_y := snd (getBoneEnd parent)\<rparr>"
    have "fst (createBone now rnd name x y len ang ty pid bs)
        = (bs(i \<mapsto> bone))(p \<mapsto> parent\<lparr>children := children parent @ [i]\<rparr>, i \<mapsto> ?b')"
      unfolding createBone_def Let_def i_def[symmetric] bone_def[symmetric] Some pp
      using p(2) by simp
    also have "\<dots> = bs(p \<mapsto> parent\<lparr>children := children parent @ [i]\<rparr>, i \<mapsto> ?b')"
      using p by (auto simp: fun_eq_iff)
    finally have "fst (createBone now rnd name x y len ang ty pid bs)
        = bs(p \<mapsto> parent\<lparr>children := children parent @ [i]\<rparr>, i \<mapsto> ?b')" .
    moreover have "wellFormed (bs(p \<mapsto> parent\<lparr>children := children parent @ [i]\<rparr>, i \<mapsto> ?b'))"
      using wellFormed_add_child[of bs i ?b' p parent, OF wf i _ nop _ p(3)] b p by simp
    ultimately show ?thesis by simp
  qed
qed

subsection \<open>Deletion keeps the hierarchy well-formed\<close>

lemma shrunk_refl [simp]: "shrunk bs bs"
  unfolding shrunk_def
proof (intro allI impI)
  fix i b' assume "bs i = Some b'"
  then have "bs i = Some b' \<and> b' = b'\<lparr>children := filter (\<lambda>x. True) (children b')\<rparr>" by simp
  then show "\<exists>b P. bs i = Some b \<and> b' = b\<lparr>children := filter P (children b)\<rparr>" by blast
qed

lemma shrunk_trans:
  assumes "shrunk a b" and "shrunk b c"
  shows "shrunk a c"
  unfolding shrunk_def
proof (intro allI impI)
  fix i z assume "c i = Some z"
  with assms(2) obtain y Q where y: "b i = Some y" "z = y\<lparr>children := filter Q (children y)\<rparr>"
    unfolding shrunk_def by blast
  with assms(1) obtain x P where x: "a i = Some x" "y = x\<lparr>children := filter P (children x)\<rparr>"
    unfolding shrunk_def by blast
  from x y have "z = x\<lparr>children := filter (\<lambda>u. P u \<and> Q u) (children x)\<rparr>" by simp
  with x show "\<exists>b P. a i = Some b \<and> z = b\<lparr>children := filter P (children b)\<rparr>" by blast
qed

lemma shrunk_lookup:
  "shrunk bs bs' \<Longrightarrow> bs' i = Some b' \<Longrightarrow>
     \<exists>b. bs i = Some b \<and> parentId b' = parentId b \<and> set (children b') \<subseteq> set (children b)
         \<and> (distinct (children b) \<longrightarrow> distinct (children b'))"
  unfolding shrunk_def by fastforce

lemma shrunk_childRel: "shrunk bs bs' \<Longrightarrow> childRel bs' \<subseteq> childRel bs"
  unfolding childRel_def by (auto dest!: shrunk_lookup)

lemma shrunk_remove: "shrunk bs (bs(c := None))"
  using shrunk_refl[of bs] unfolding shrunk_def by (auto split: if_splits)

lemma shrunk_detach: "shrunk bs (detach c bone bs)"
proof (cases "getParent bs bone")
  case None
  then show ?thesis by (simp add: detach_def)
next
  case (Some pp)
  obtain p parent where pp: "pp = (p, parent)" by (cases pp)
  with Some have bp: "bs p = Some parent"
    by (auto simp: getParent_def split: option.splits if_splits)
  have d: "detach c bone bs = bs(p \<mapsto> parent\<lparr>children := filter (\<lambda>i. i \<noteq> c) (children parent)\<rparr>)"
    using Some pp by (simp add: detach_def)
  show ?thesis
    unfolding d shrunk_def
  proof (intro allI impI)
    fix i b'
    assume a: "(bs(p \<mapsto> parent\<lparr>children := filter (\<lambda>i. i \<noteq> c) (children parent)\<rparr>)) i = Some b'"
    show "\<exists>b P. bs i = Some b \<and> b' = b\<lparr>children := filter P (children b)\<rparr>"
    proof (cases "i = p")
      case True
      with a bp show ?thesis by auto
    next
      case False
      with a have "bs i = Some b'" by simp
      with shrunk_refl[of bs] show ?thesis unfolding shrunk_def by blast
    qed
  qed
qed

lemma deleteBone_shrunk:
  "\<forall>bs'. deleteBone n c bs = Some bs' \<longrightarrow> shrunk bs bs'"
  "\<forall>bs'. deleteEach m cs bs0 = Some bs' \<longrightarrow> shrunk bs0 bs'"
proof (induction n c bs and m cs bs0 rule: deleteBone_deleteEach.induct)
  case (1 c bs)
  then show ?case by simp
next
  case (2 n c bs)
  show ?case
  proof (cases "bs c")
    case None
    then show ?thesis by simp
  next
    case (Some bone)
    show ?thesis
    proof (intro allI impI)
      fix bs' assume a: "deleteBone (Suc n) c bs = Some bs'"
      with Some obtain bs2 where
        e: "deleteEach n (childrenOf (detach c bone bs) c) (detach c bone bs) = Some bs2"
        and r: "bs' = bs2(c := None)"
        by (auto split: option.splits)
      from "2.IH"[OF Some] e have "shrunk (detach c bone bs) bs2" by blast
      with shrunk_detach[of bs c bone] have "shrunk bs bs2" by (rule shrunk_trans)
      with shrunk_remove[of bs2 c] r show "shrunk bs bs'" by (auto intro: shrunk_trans)
    qed
  qed
next
  case (3 n bs)
  then show ?case by simp
next
  case (4 n c cs bs)
  show ?case
  proof (intro allI impI)
    fix bs' assume a: "deleteEach n (c # cs) bs = Some bs'"
    then obtain bs1 where d: "deleteBone n c bs = Some bs1" and e: "deleteEach n cs bs1 = Some bs'"
      by (auto split: option.splits)
    from "4.IH"(1) d have "shrunk bs bs1" by blast
    moreover from "4.IH"(2)[OF d] e have "shrunk bs1 bs'" by blast
    ultimately show "shrunk bs bs'" by (rule shrunk_trans)
  qed
qed

lemma unlisted_shrunk: "unlisted c bs \<Longrightarrow> shrunk bs bs' \<Longrightarrow> unlisted c bs'"
  unfolding unlisted_def by (blast dest: shrunk_lookup)

lemma partlyLinked_detach:
  assumes pl: "partlyLinked D bs" and c: "bs c = Some bone"
  shows "partlyLinked (insert c D) (detach c bone bs)" and "unlisted c (detach c bone bs)"
proof -
  from pl have nil: "[] \<notin> dom bs" and cl: "childrenLinked bs"
    and p2: "\<And>x xb p pb. x \<notin> D \<Longrightarrow> bs x = Some xb \<Longrightarrow> parentId xb = Some p \<Longrightarrow> bs p = Some pb
               \<Longrightarrow> x \<in> set (children pb)"
    unfolding partlyLinked_def by blast+
  have lister: "parentId bone = Some j \<and> j \<noteq> []" if "bs j = Some b" "c \<in> set (children b)" for j b
    using cl that c nil unfolding childrenLinked_def by fastforce
  have "partlyLinked (insert c D) (detach c bone bs) \<and> unlisted c (detach c bone bs)"
  proof (cases "getParent bs bone")
    case None
    then have d: "detach c bone bs = bs" by (simp add: detach_def)
    have "unlisted c bs"
      unfolding unlisted_def
    proof (intro allI impI notI)
      fix j b assume "bs j = Some b" "c \<in> set (children b)"
      with lister[of j b] None show False by (simp add: getParent_def)
    qed
    then have u: "unlisted c (detach c bone bs)" by (simp add: d)
    from pl have "partlyLinked (insert c D) (detach c bone bs)"
      unfolding d partlyLinked_def by blast
    with u show ?thesis by simp
  next
    case (Some pp)
    obtain p parent where pp: "pp = (p, parent)" by (cases pp)
    with Some have bp: "bs p = Some parent" "parentId bone = Some p"
      by (auto simp: getParent_def split: option.splits if_splits)
    let ?bs = "bs(p \<mapsto> parent\<lparr>children := filter (\<lambda>i. i \<noteq> c) (children parent)\<rparr>)"
    have d: "detach c bone bs = ?bs" using Some pp by (simp add: detach_def)
    have u: "unlisted c (detach c bone bs)"
      unfolding d unlisted_def
    proof (intro allI impI notI)
      fix j b assume a: "?bs j = Some b" "c \<in> set (children b)"
      then have "j \<noteq> p" by (auto split: if_splits)
      with a have "bs j = Some b" by simp
      with lister[of j b] a bp \<open>j \<noteq> p\<close> show False by simp
    qed
    have look: "\<exists>b. bs j = Some b \<and> parentId b' = parentId b
        \<and> set (children b') = set (children b) - (if j = p then {c} else {})"
      if "?bs j = Some b'" for j b'
      using that bp by (auto split: if_splits)
    have look2: "\<exists>b'. ?bs j = Some b' \<and> parentId b' = parentId b" if "bs j = Some b" for j b
      using that bp by auto
    have "partlyLinked (insert c D) (detach c bone bs)"
      unfolding d partlyLinked_def
    proof (intro conjI allI impI)
      show "[] \<notin> dom ?bs" using nil bp by auto
      show "childrenLinked ?bs"
        unfolding childrenLinked_def
      proof (intro allI impI ballI)
        fix j b' x assume a: "?bs j = Some b'" "x \<in> set (children b')"
        with look[of j b'] obtain b where "bs j = Some b" "x \<in> set (children b)"
          by (auto split: if_splits)
        with cl obtain xb where "bs x = Some xb" "parentId xb = Some j"
          unfolding childrenLinked_def by blast
        with look2[of x xb] show "\<exists>cb. ?bs x = Some cb \<and> parentId cb = Some j" by auto
      qed
    next
      fix x xb' q qb'
      assume a: "x \<notin> insert c D \<and> ?bs x = Some xb' \<and> parentId xb' = Some q \<and> ?bs q = Some qb'"
      with look[of x xb'] obtain xb where xb: "bs x = Some xb" "parentId xb = Some q" by auto
      from a look[of q qb'] obtain qb where
        qb: "bs q = Some qb" "set (children qb') = set (children qb) - (if q = p then {c} else {})"
        by auto
      from a xb qb p2[of x xb q qb] have "x \<in> set (children qb)" by simp
      with a qb show "x \<in> set (children qb')" by (auto split: if_splits)
    qed
    with u show ?thesis by simp
  qed
  then show "partlyLinked (insert c D) (detach c bone bs)" and "unlisted c (detach c bone bs)"
    by simp_all
qed

lemma partlyLinked_remove:
  assumes pl: "partlyLinked (insert c D) bs" and un: "unlisted c bs"
  shows "partlyLinked D (bs(c := None))"
proof -
  from pl have nil: "[] \<notin> dom bs" and cl: "childrenLinked bs"
    and p2: "\<And>x xb p pb. x \<notin> insert c D \<Longrightarrow> bs x = Some xb \<Longrightarrow> parentId xb = Some p
               \<Longrightarrow> bs p = Some pb \<Longrightarrow> x \<in> set (children pb)"
    unfolding partlyLinked_def by blast+
  show ?thesis
    unfolding partlyLinked_def
  proof (intro conjI allI impI)
    show "[] \<notin> dom (bs(c := None))" using nil by auto
    show "childrenLinked (bs(c := None))"
      unfolding childrenLinked_def
    proof (intro allI impI ballI)
      fix j b x assume a: "(bs(c := None)) j = Some b" "x \<in> set (children b)"
      then have j: "bs j = Some b" by (auto split: if_splits)
      with un a have "x \<noteq> c" by (auto simp: unlisted_def)
      moreover from cl j a obtain xb where "bs x = Some xb" "parentId xb = Some j"
        unfolding childrenLinked_def by blast
      ultimately show "\<exists>cb. (bs(c := None)) x = Some cb \<and> parentId cb = Some j" by simp
    qed
  next
    fix x xb q qb
    assume a: "x \<notin> D \<and> (bs(c := None)) x = Some xb \<and> parentId xb = Some q
                \<and> (bs(c := None)) q = Some qb"
    then have "x \<noteq> c" "bs x = Some xb" "bs q = Some qb" by (auto split: if_splits)
    with a p2[of x xb q qb] show "x \<in> set (children qb)" by simp
  qed
qed

lemma deleteBone_partlyLinked:
  "\<forall>D bs'. partlyLinked D bs \<longrightarrow> deleteBone n c bs = Some bs' \<longrightarrow> partlyLinked D bs'"
  "\<forall>D bs'. partlyLinked D bs0 \<longrightarrow> deleteEach m cs bs0 = Some bs' \<longrightarrow> partlyLinked D bs'"
proof (induction n c bs and m cs bs0 rule: deleteBone_deleteEach.induct)
  case (1 c bs)
  then show ?case by simp
next
  case (2 n c bs)
  show ?case
  proof (cases "bs c")
    case None
    then show ?thesis by simp
  next
    case (Some bone)
    show ?thesis
    proof (intro allI impI)
      fix D bs' assume pl: "partlyLinked D bs" and a: "deleteBone (Suc n) c bs = Some bs'"
      with Some obtain bs2 where
        e: "deleteEach n (childrenOf (detach c bone bs) c) (detach c bone bs) = Some bs2"
        and r: "bs' = bs2(c := None)"
        by (auto split: option.splits)
      note dt = partlyLinked_detach[OF pl Some]
      from "2.IH"[OF Some] dt(1) e have "partlyLinked (insert c D) bs2" by blast
      moreover from deleteBone_shrunk(2) e have "shrunk (detach c bone bs) bs2" by blast
      with dt(2) have "unlisted c bs2" by (rule unlisted_shrunk)
      ultimately show "partlyLinked D bs'" unfolding r by (rule partlyLinked_remove)
    qed
  qed
next
  case (3 n bs)
  then show ?case by simp
next
  case (4 n c cs bs)
  show ?case
  proof (intro allI impI)
    fix D bs' assume pl: "partlyLinked D bs" and a: "deleteEach n (c # cs) bs = Some bs'"
    then obtain bs1 where d: "deleteBone n c bs = Some bs1" and e: "deleteEach n cs bs1 = Some bs'"
      by (auto split: option.splits)
    from "4.IH"(1) pl d have "partlyLinked D bs1" by blast
    with "4.IH"(2)[OF d] e show "partlyLinked D bs'" by blast
  qed
qed

lemma wellFormed_partlyLinked:
  "wellFormed bs \<longleftrightarrow> partlyLinked {} bs \<and> (\<forall>i b. bs i = Some b \<longrightarrow> distinct (children b))
     \<and> (\<exists>h. ranked h bs) \<and> (\<exists>d. levelled d bs)"
  by (auto simp: wellFormed_def partlyLinked_def parentsLinked_def)

lemma deleteBone_wellFormed:
  assumes wf: "wellFormed bs" and d: "deleteBone n c bs = Some bs'"
  shows "wellFormed bs'"
proof -
  from deleteBone_shrunk(1) d have sh: "shrunk bs bs'" by blast
  from wf deleteBone_partlyLinked(1) d have 1: "partlyLinked {} bs'"
    unfolding wellFormed_partlyLinked by blast
  have 2: "\<forall>i b. bs' i = Some b \<longrightarrow> distinct (children b)"
    using wf sh unfolding wellFormed_def by (blast dest: shrunk_lookup)
  have 3: "(\<exists>h. ranked h bs') \<and> (\<exists>d. levelled d bs')"
    using wf shrunk_childRel[OF sh] unfolding wellFormed_def ranked_def levelled_def by blast
  from 1 2 3 show ?thesis unfolding wellFormed_partlyLinked by simp
qed

subsection \<open>Reachable hierarchies\<close>

lemma wellFormed_empty: "wellFormed Map.empty"
  by (simp add: wellFormed_def childrenLinked_def parentsLinked_def ranked_def levelled_def
      childRel_def)

text \<open>Every hierarchy built by the operations is well-formed.\<close>

lemma reachable_wellFormed: "reachable bs \<Longrightarrow> wellFormed bs"
proof (induction rule: reachable.induct)
  case empty
  then show ?case by (rule wellFormed_empty)
next
  case (create bs now rnd pid name x y len ang ty)
  then show ?case by (intro createBone_wellFormed)
next
  case (delete bs fuel i bs')
  then show ?case by (blast intro: deleteBone_wellFormed)
next
  case (move bs fuel i position bs')
  then show ?case by (blast intro: wellFormed_poseOnly moveBone_poseOnly)
next
  case (rotate bs fuel i a bs')
  then show ?case by (blast intro: wellFormed_poseOnly setBoneAngle_poseOnly)
next
  case (solve bs fuel i target bs')
  then show ?case by (blast intro: wellFormed_poseOnly solveIK_poseOnly)
qed



lemma digitsOf_7_8: "digitsOf 7 = ''7''" "digitsOf 8 = ''8''"
  by (simp_all add: digitsOf.simps[of 7] digitsOf.simps[of 8])




lemma upperArm_eq:
  "upperArm = [''bone_7_a'' \<mapsto>
     \<lparr>bone_id = ''bone_7_a'', bone_name = ''upper'', bone_x = 0, bone_y = 0,
      bone_length = 10, angle = 0, color = ''#00ff88'', thickness = 3,
      parentId = None, children = [], bone_type = IK, isSelected = False\<rparr>]"
  by (simp add: upperArm_def createBone_def newBoneId_def digitsOf_7_8 getParent_def Let_def)

lemma straightArm_eq:
  "straightArm = [''bone_7_a'' \<mapsto>
     \<lparr>bone_id = ''bone_7_a'', bone_name = ''upper'', bone_x = 0, bone_y = 0,
      bone_length = 10, angle = 0, color = ''#00ff88'', thickness = 3,
      parentId = None, children = [''bone_8_b''], bone_type = IK, isSelected = False\<rparr>,
    ''bone_8_b'' \<mapsto>
     \<lparr>bone_id = ''bone_8_b'', bone_name = ''lower'', bone_x = 10, bone_y = 0,
      bone_length = 10, angle = 0, color = ''#00ff88'', thickness = 3,
      parentId = Some ''bone_7_a'', children = [], bone_type = IK, isSelected = False\<rparr>]"
  by (simp add: straightArm_def upperArm_eq createBone_def newBoneId_def digitsOf_7_8
      getParent_def getBoneEnd_def Let_def)

lemma reachable_straightArm: "reachable straightArm"
proof -
  have "reachable upperArm"
    unfolding upperArm_def
    by (rule reachable.create[OF reachable.empty]) (simp add: freshId_def)
  then show ?thesis
    unfolding straightArm_def
    by (rule reachable.create) (simp add: freshId_def upperArm_eq newBoneId_def digitsOf_7_8)
qed


subsection \<open>Moving a bone\<close>

lemma shifted_lookup:
  "shifted A dx dy bs i = (if i \<in> A then map_option (translate dx dy) (bs i) else bs i)"
  by (simp add: shifted_def)

lemma moveBone_shifted:
  assumes wf: "wellFormed bs" and b: "bs boneId = Some bone" and h: "ranked h bs"
    and n: "h boneId < n"
  shows "moveBone n boneId position bs =
    Some (shifted (subtree bs boneId) (fst position - bone_x bone) (snd position - bone_y bone) bs)"
proof -
  let ?dx = "fst position - bone_x bone" and ?dy = "snd position - bone_y bone"
  let ?bs1 = "bs(boneId \<mapsto> bone\<lparr>bone_x := fst position, bone_y := snd position\<rparr>)"
  have tr: "bone\<lparr>bone_x := fst position, bone_y := snd position\<rparr> = translate ?dx ?dy bone"
    by (simp add: translate_def)
  have bs1: "?bs1 = shifted {boneId} ?dx ?dy bs"
    unfolding tr using shifted_single[of bs boneId bone ?dx ?dy, OF b] .
  have u: "uniqueParent (childRel bs)"
    using wf by (intro uniqueParent_childRel) (simp add: wellFormed_def)
  have d: "\<forall>j b. shifted {boneId} ?dx ?dy bs j = Some b \<longrightarrow> distinct (children b)"
    using wf by (auto simp: wellFormed_def shifted_def split: if_splits)
  have "moveChildren n boneId ?dx ?dy (shifted {boneId} ?dx ?dy bs)
      = Some (shifted (subtree (shifted {boneId} ?dx ?dy bs) boneId - {boneId}) ?dx ?dy
                (shifted {boneId} ?dx ?dy bs))"
    using moveChildren_moveEach_shift(1)[of "shifted {boneId} ?dx ?dy bs" boneId n ?dx ?dy]
      u h d n by (simp add: ranked_def)
  also have "\<dots> = Some (shifted (subtree bs boneId) ?dx ?dy bs)"
    using shifted_union[of "subtree bs boneId - {boneId}" "{boneId}" ?dx ?dy bs]
    by (simp add: insert_absorb subtree_def)
  finally show ?thesis using b by (simp add: moveBone_def Let_def bs1)
qed




subsection \<open>The walks return\<close>

lemma ranked_poseOnly: "ranked h bs \<Longrightarrow> poseOnly bs bs' \<Longrightarrow> ranked h bs'"
  by (simp add: ranked_def poseOnly_childRel)

lemma poseOnly_snapToParent: "bs i = Some bone \<Longrightarrow> poseOnly bs (snapToParent i bone bs)"
  using poseOnly_update(1)[of bs i bone]
  by (auto simp: snapToParent_def split: option.splits)

lemma updateBonePosition_returns:
  "\<forall>h. ranked h bs \<longrightarrow> h i < n \<longrightarrow> (\<exists>bs'. updateBonePosition n i bs = Some bs')"
  "\<forall>h. ranked h bs0 \<longrightarrow> (\<forall>c\<in>set cs. h c < m) \<longrightarrow> (\<exists>bs'. updateEach m cs bs0 = Some bs')"
proof (induction n i bs and m cs bs0 rule: updateBonePosition_updateEach.induct)
  case (1 i bs)
  then show ?case by simp
next
  case (2 n i bs)
  show ?case
  proof (cases "bs i")
    case None
    then show ?thesis by simp
  next
    case (Some bone)
    show ?thesis
    proof (intro allI impI)
      fix h assume r: "ranked h bs" and hi: "h i < Suc n"
      have "ranked h (snapToParent i bone bs)"
        using r poseOnly_snapToParent[of bs i bone, OF Some] by (rule ranked_poseOnly)
      moreover have "\<forall>c\<in>set (children bone). h c < n"
        using r Some hi by (fastforce simp: ranked_def childRel_def)
      ultimately have "\<exists>bs'. updateEach n (children bone) (snapToParent i bone bs) = Some bs'"
        using "2.IH"[OF Some] by blast
      with Some show "\<exists>bs'. updateBonePosition (Suc n) i bs = Some bs'" by simp
    qed
  qed
next
  case (3 n bs)
  then show ?case by simp
next
  case (4 n c cs bs)
  show ?case
  proof (intro allI impI)
    fix h assume r: "ranked h bs" and hc: "\<forall>c'\<in>set (c # cs). h c' < n"
    show "\<exists>bs'. updateEach n (c # cs) bs = Some bs'"
    proof (cases "bs c")
      case None
      with "4.IH"(1)[OF None] r hc show ?thesis by simp
    next
      case (Some child)
      from "4.IH"(2)[OF Some] r hc obtain bs1 where u: "updateBonePosition n c bs = Some bs1"
        by auto
      then have "poseOnly bs bs1" using updateBonePosition_poseOnly(1) by blast
      with r have "ranked h bs1" by (rule ranked_poseOnly)
      with "4.IH"(3)[OF Some u] hc obtain bs2 where "updateEach n cs bs1 = Some bs2" by auto
      with Some u show ?thesis by simp
    qed
  qed
qed

lemma getParent_edge:
  assumes "parentsLinked bs" and "bs i = Some current" and "getParent bs current = Some (p, pb)"
  shows "(p, i) \<in> childRel bs"
proof -
  from assms(3) have "parentId current = Some p" "bs p = Some pb"
    by (auto simp: getParent_def split: option.splits if_splits)
  with assms(1,2) have "i \<in> set (children pb)" unfolding parentsLinked_def by blast
  with \<open>bs p = Some pb\<close> show ?thesis by (auto simp: childRel_def)
qed

lemma buildChain_returns:
  "levelled d bs \<Longrightarrow> parentsLinked bs \<Longrightarrow> (case cur of None \<Rightarrow> True | Some i \<Rightarrow> d i < n) \<Longrightarrow>
     \<exists>chain'. buildChain n cur bs chain = Some chain'"
proof (induction n cur bs chain rule: buildChain.induct)
  case (1 fuel bs chain)
  then show ?case by simp
next
  case (2 i bs chain)
  then show ?case by simp
next
  case (3 n i bs chain)
  show ?case
  proof (cases "bs i")
    case None
    then show ?thesis by simp
  next
    case (Some current)
    have "case map_option fst (getParent bs current) of None \<Rightarrow> True | Some p \<Rightarrow> d p < n"
    proof (cases "getParent bs current")
      case None
      then show ?thesis by simp
    next
      case gp: (Some pp)
      obtain p pb where pp: "pp = (p, pb)" by (cases pp)
      from getParent_edge[of bs i current p pb, OF "3.prems"(2) Some gp[unfolded pp]] "3.prems"(1)
      have "d p < d i" by (simp add: levelled_def)
      with "3.prems"(3) gp pp show ?thesis by simp
    qed
    from "3.IH"[OF Some "3.prems"(1,2) this] Some show ?thesis by simp
  qed
qed

lemma buildChain_more_fuel:
  "buildChain n cur bs chain = Some c \<Longrightarrow> buildChain (n + k) cur bs chain = Some c"
proof (induction n cur bs chain rule: buildChain.induct)
  case (1 fuel bs chain)
  then show ?case by simp
next
  case (2 i bs chain)
  then show ?case by simp
next
  case (3 n i bs chain)
  then show ?case by (cases "bs i") auto
qed

lemma buildChain_extends:
  "buildChain n cur bs chain = Some c \<Longrightarrow> \<exists>pre. c = pre @ chain \<and> set pre \<subseteq> dom bs"
proof (induction n cur bs chain rule: buildChain.induct)
  case (1 fuel bs chain)
  then show ?case by simp
next
  case (2 i bs chain)
  then show ?case by simp
next
  case (3 n i bs chain)
  show ?case
  proof (cases "bs i")
    case None
    with "3.prems" show ?thesis by simp
  next
    case (Some current)
    with "3.prems" "3.IH"[OF Some] obtain pre where "c = pre @ i # chain" "set pre \<subseteq> dom bs"
      by auto
    with Some have "c = (pre @ [i]) @ chain \<and> set (pre @ [i]) \<subseteq> dom bs" by auto
    then show ?thesis by blast
  qed
qed

lemma buildChain_start:
  assumes "buildChain n (Some i) bs [] = Some c" and "bs i = Some b"
  shows "c \<noteq> [] \<and> last c = i \<and> set c \<subseteq> dom bs"
proof (cases n)
  case 0
  with assms show ?thesis by simp
next
  case (Suc m)
  with assms have "buildChain m (map_option fst (getParent bs b)) bs [i] = Some c" by simp
  from buildChain_extends[OF this] assms(2) show ?thesis by auto
qed

subsection \<open>Inverse kinematics\<close>

lemma getChainEnd_last:
  "chain \<noteq> [] \<Longrightarrow> bs (last chain) = Some b \<Longrightarrow> getChainEnd chain bs = Some (getBoneEnd b)"
  by (cases chain) (simp_all add: getChainEnd_def)

lemma ccdPass_returns:
  assumes "chain \<noteq> []" 
  shows "ranked h bs \<Longrightarrow> last chain \<in> dom bs \<Longrightarrow> \<forall>j\<in>set js. j \<in> dom bs \<and> h j < fuel \<Longrightarrow>
     ccdPass fuel target chain js bs \<noteq> None"
proof (induction js arbitrary: bs)
  case Nil
  show ?case by simp
next
  case (Cons j js)
  from Cons.prems obtain cb where cb: "bs j = Some cb" by auto
  from Cons.prems(2) obtain lb where lb: "bs (last chain) = Some lb" by auto
  from getChainEnd_last[of chain bs lb, OF assms lb] obtain e where
    e: "getChainEnd chain bs = Some e" by simp
  show ?case
  proof (cases "distance e target < ikTolerance")
    case True
    with cb e show ?thesis by simp
  next
    case False
    let ?bs1 = "bs(j \<mapsto> cb\<lparr>angle := angle cb + angleDiff cb e target\<rparr>)"
    have p1: "poseOnly bs ?bs1" using poseOnly_update(2)[of bs j cb, OF cb] by simp
    with Cons.prems(1) have "ranked h ?bs1" by (rule ranked_poseOnly)
    with updateBonePosition_returns(1)[of ?bs1 j fuel] Cons.prems(3)
    obtain bs2 where u: "updateBonePosition fuel j ?bs1 = Some bs2" by auto
    then have "poseOnly ?bs1 bs2" using updateBonePosition_poseOnly(1) by blast
    with p1 have p2: "poseOnly bs bs2" by (rule poseOnly_trans)
    have "ccdPass fuel target chain js bs2 \<noteq> None"
      using Cons.prems ranked_poseOnly[OF Cons.prems(1) p2] poseOnly_dom[OF p2]
      by (intro Cons.IH) auto
    with cb e False u show ?thesis by simp
  qed
qed

lemma ccdIterate_returns:
  assumes "chain \<noteq> []"
  shows "ranked h bs \<Longrightarrow> last chain \<in> dom bs \<Longrightarrow> \<forall>j\<in>set chain. j \<in> dom bs \<and> h j < fuel \<Longrightarrow>
     ccdIterate k fuel target chain bs \<noteq> None"
proof (induction k arbitrary: bs)
  case 0
  show ?case by simp
next
  case (Suc k)
  from ccdPass_returns[OF assms Suc.prems(1,2), of "rev chain" fuel target] Suc.prems(3)
  obtain f1 bs1 where p: "ccdPass fuel target chain (rev chain) bs = Some (f1, bs1)" by auto
  then have p1: "poseOnly bs bs1" by (rule ccdPass_poseOnly)
  show ?case
  proof (cases f1)
    case True
    with p show ?thesis by simp
  next
    case False
    have "ccdIterate k fuel target chain bs1 \<noteq> None"
      using Suc.prems ranked_poseOnly[OF Suc.prems(1) p1] poseOnly_dom[OF p1]
      by (intro Suc.IH) auto
    with p False show ?thesis by simp
  qed
qed

lemma ccdPass_exit_within_tolerance:
  "ccdPass fuel target chain js bs = Some (True, bs') \<Longrightarrow>
     \<exists>e. getChainEnd chain bs' = Some e \<and> distance e target < ikTolerance"
proof (induction js arbitrary: bs)
  case Nil
  then show ?case by simp
next
  case (Cons j js)
  from Cons.prems obtain cb where cb: "bs j = Some cb" by (auto split: option.splits)
  from Cons.prems cb obtain e where e: "getChainEnd chain bs = Some e"
    by (auto split: option.splits)
  show ?case
  proof (cases "distance e target < ikTolerance")
    case True
    with Cons.prems cb e show ?thesis by simp
  next
    case False
    with Cons.prems cb e obtain bs2 where
      "ccdPass fuel target chain js bs2 = Some (True, bs')"
      by (auto split: option.splits)
    then show ?thesis by (rule Cons.IH)
  qed
qed

lemma ccdIterate_exit_within_tolerance:
  "ccdIterate k fuel target chain bs = Some (True, bs') \<Longrightarrow>
     \<exists>e. getChainEnd chain bs' = Some e \<and> distance e target < ikTolerance"
proof (induction k arbitrary: bs)
  case 0
  then show ?case by simp
next
  case (Suc k)
  from Suc.prems obtain f1 bs1 where p: "ccdPass fuel target chain (rev chain) bs = Some (f1, bs1)"
    by (auto split: option.splits)
  show ?case
  proof (cases f1)
    case True
    with Suc.prems p have "ccdPass fuel target chain (rev chain) bs = Some (True, bs')" by simp
    then show ?thesis by (rule ccdPass_exit_within_tolerance)
  next
    case False
    with Suc.prems p have "ccdIterate k fuel target chain bs1 = Some (True, bs')" by simp
    then show ?thesis by (rule Suc.IH)
  qed
qed

lemma ccdIterate_already_there:
  assumes "chain \<noteq> []" and "bs (last chain) = Some b"
    and "distance (getBoneEnd b) target < ikTolerance"
  shows "ccdIterate (Suc k) fuel target chain bs = Some (True, bs)"
proof -
  obtain j js where r: "rev chain = j # js" and j: "j = last chain"
    using assms(1) by (cases chain rule: rev_cases) auto
  have e: "getChainEnd chain bs = Some (getBoneEnd b)"
    using getChainEnd_last[of chain bs b, OF assms(1,2)] .
  have "ccdPass fuel target chain (rev chain) bs = Some (True, bs)"
    unfolding r using assms(2,3) j e by simp
  then show ?thesis by simp
qed

lemma rank_le_sum: "j \<in> set js \<Longrightarrow> h j \<le> sum_list (map h js)" for h :: "string \<Rightarrow> nat"
  by (induction js) auto

lemma solveIK_outcome:
  assumes "wellFormed bs" and "bs boneId = Some bone"
  shows "\<exists>fuel. \<forall>n\<ge>fuel. \<exists>flag bs' bone'.
      solveIKRun n boneId target bs = Some (flag, bs')
    \<and> solveIK n boneId target bs = Some bs'
    \<and> poseOnly bs bs' \<and> bs' boneId = Some bone'
    \<and> (flag \<longrightarrow> distance (getBoneEnd bone') target < ikTolerance)
    \<and> (distance (getBoneEnd bone) target < ikTolerance \<longrightarrow> flag \<and> bs' = bs)"
proof -
  from assms(1) obtain h d where h: "ranked h bs" and d: "levelled d bs"
    and pl: "parentsLinked bs"
    by (auto simp: wellFormed_def)
  from buildChain_returns[OF d pl, where cur = "Some boneId" and n = "Suc (d boneId)" and chain = "[]"]
  obtain chain where c: "buildChain (Suc (d boneId)) (Some boneId) bs [] = Some chain" by auto
  from buildChain_start[OF c assms(2)]
  have ne: "chain \<noteq> []" and la: "last chain = boneId" and su: "set chain \<subseteq> dom bs" by auto
  let ?fuel = "Suc (d boneId) + Suc (sum_list (map h chain))"
  show ?thesis
  proof (intro exI[of _ ?fuel] allI impI)
    fix n assume n: "?fuel \<le> n"
    then obtain k where "n = Suc (d boneId) + k" using le_Suc_ex by (metis add_leD1)
    with buildChain_more_fuel[OF c, of k]
    have cn: "buildChain n (Some boneId) bs [] = Some chain" by simp
    have ranks: "\<forall>j\<in>set chain. j \<in> dom bs \<and> h j < n"
    proof
      fix j assume j: "j \<in> set chain"
      from rank_le_sum[OF j, of h] n have "h j < n" by simp
      with j su show "j \<in> dom bs \<and> h j < n" by auto
    qed
    have "last chain \<in> dom bs" using la assms(2) by auto
    from ccdIterate_returns[OF ne h this ranks, of ikIterations target]
    obtain flag bs' where r: "ccdIterate ikIterations n target chain bs = Some (flag, bs')"
      by auto
    then have run: "solveIKRun n boneId target bs = Some (flag, bs')"
      using assms(2) cn by (simp add: solveIKRun_def)
    have po: "poseOnly bs bs'" using r by (rule ccdIterate_poseOnly)
    from poseOnly_lookup[OF po assms(2)] obtain bone' where b': "bs' boneId = Some bone'"
      by auto
    have e': "getChainEnd chain bs' = Some (getBoneEnd bone')"
      using getChainEnd_last[of chain bs' bone', OF ne] b' la by simp
    have fl: "flag \<longrightarrow> distance (getBoneEnd bone') target < ikTolerance"
    proof
      assume flag
      with r ccdIterate_exit_within_tolerance[of ikIterations n target chain bs bs'] e'
      show "distance (getBoneEnd bone') target < ikTolerance" by auto
    qed
    have al: "distance (getBoneEnd bone) target < ikTolerance \<longrightarrow> flag \<and> bs' = bs"
    proof
      assume a: "distance (getBoneEnd bone) target < ikTolerance"
      have lb: "bs (last chain) = Some bone" using la assms(2) by simp
      from ccdIterate_already_there[where chain = chain and bs = bs and b = bone
          and target = target and k = 9 and fuel = n, OF ne lb a] r
      show "flag \<and> bs' = bs" by (simp add: ikIterations_def)
    qed
    from run po b' fl al
    show "\<exists>flag bs' bone'.
      solveIKRun n boneId target bs = Some (flag, bs')
    \<and> solveIK n boneId target bs = Some bs'
    \<and> poseOnly bs bs' \<and> bs' boneId = Some bone'
    \<and> (flag \<longrightarrow> distance (getBoneEnd bone') target < ikTolerance)
    \<and> (distance (getBoneEnd bone) target < ikTolerance \<longrightarrow> flag \<and> bs' = bs)"
      by (intro exI[of _ flag] exI[of _ bs'] exI[of _ bone']) (simp add: solveIK_def)
  qed
qed

lemma hypot_axis: "hypot a 0 = \<bar>a\<bar>"
  by (simp add: hypot_def)

lemma hypot_axis_y: "hypot 0 a = \<bar>a\<bar>"
  by (simp add: hypot_def)

text \<open>
  The guard of \<open>normalize\<close>. Over the reals the zero vector is mapped to \<open>(0, 0)\<close> without
  a division, and a joint that lies on the target or on the end-effector gets the step
  \<open>atan2 0 0 = 0\<close>. The model has neither signed zeros nor NaN: what IEEE arithmetic does
  with them at this place is outside of it.
\<close>

lemma normalize_zero: "normalize (0, 0) = (0, 0)"
  by (simp add: normalize_def hypot_def)

lemma atan2_0_0: "atan2 0 0 = 0"
  by (simp add: atan2_def)

lemma angleDiff_joint_on_target:
  "bone_x b = fst target \<Longrightarrow> bone_y b = snd target \<Longrightarrow> angleDiff b e target = 0"
  by (simp add: angleDiff_def normalize_zero atan2_0_0 Let_def)

lemma angleDiff_joint_on_end:
  "bone_x b = fst e \<Longrightarrow> bone_y b = snd e \<Longrightarrow> angleDiff b e target = 0"
  by (simp add: angleDiff_def normalize_zero atan2_0_0 Let_def)

text \<open>
  The direction of a step. \<open>cross\<close> is \<open>toTarget \<times> toEnd\<close>, so \<open>atan2(cross, dot)\<close> is the
  angle that leads from the direction of the target to the direction of the
  end-effector, and the step adds it to the angle of the joint. With the joint at the
  origin, the end-effector at \<open>(L, 0)\<close> and the target at \<open>(0, L)\<close>, the joint turns by
  \<open>- \<pi> / 2\<close> and the end of the bone lands on \<open>(0, - L)\<close>, opposite the target.
\<close>

lemma ccd_step_turns_away:
  assumes "bone_x b = 0" and "bone_y b = 0" and "angle b = 0" and "bone_length b = L" and "0 < L"
  shows "getBoneEnd b = (L, 0)"
    and "angleDiff b (L, 0) (0, L) = - (pi / 2)"
    and "getBoneEnd (b\<lparr>angle := angle b + angleDiff b (L, 0) (0, L)\<rparr>) = (0, - L)"
proof -
  show e: "getBoneEnd b = (L, 0)" using assms by (simp add: getBoneEnd_def)
  show a: "angleDiff b (L, 0) (0, L) = - (pi / 2)"
    using assms by (simp add: angleDiff_def normalize_def hypot_axis hypot_axis_y atan2_def Let_def)
  show "getBoneEnd (b\<lparr>angle := angle b + angleDiff b (L, 0) (0, L)\<rparr>) = (0, - L)"
    unfolding a using assms by (simp add: getBoneEnd_def)
qed

text \<open>
  C1 (amended). In a well-formed hierarchy, so in every two-bone chain, and for every
  target, \<open>solveIK\<close> on an existing bone returns. It changes nothing but angles and cached
  positions. If it leaves through the early exit, the end-effector is within
  \<open>ikTolerance\<close> of the target; if the end-effector is within \<open>ikTolerance\<close> on entry, it
  leaves at once and changes nothing. Otherwise it ends after \<open>ikIterations\<close> passes,
  with no bound on the distance that is left.
\<close>

theorem solveIK_best_effort:
  assumes "wellFormed bs" and "bs boneId = Some bone"
  shows "\<exists>fuel. \<forall>n\<ge>fuel. \<exists>flag bs' bone'.
      solveIKRun n boneId target bs = Some (flag, bs')
    \<and> solveIK n boneId target bs = Some bs'
    \<and> poseOnly bs bs' \<and> bs' boneId = Some bone'
    \<and> (flag \<longrightarrow> distance (getBoneEnd bone') target < ikTolerance)
    \<and> (distance (getBoneEnd bone) target < ikTolerance \<longrightarrow> flag \<and> bs' = bs)"
  using solveIK_outcome[OF assms] .

lemma lower_end: "map_option getBoneEnd (straightArm ''bone_8_b'') = Some (20, 0)"
  by (simp add: straightArm_eq getBoneEnd_def)

theorem solveIK_best_effort_witness:
  "wellFormed straightArm
   \<and> map_option getBoneEnd (straightArm ''bone_8_b'') = Some (20, 0)
   \<and> distance (20, 0) (20, 0) < ikTolerance
   \<and> (\<exists>fuel. \<forall>n\<ge>fuel. solveIK n ''bone_8_b'' (20, 0) straightArm = Some straightArm)"
proof -
  have wf: "wellFormed straightArm" by (rule reachable_wellFormed[OF reachable_straightArm])
  obtain lower where l: "straightArm ''bone_8_b'' = Some lower" "getBoneEnd lower = (20, 0)"
    using lower_end by auto
  have dist: "distance (20, 0) (20, 0) < ikTolerance"
    by (simp add: distance_def hypot_axis ikTolerance_def)
  from solveIK_best_effort[OF wf l(1), of "(20, 0)"]
  have "\<exists>fuel. \<forall>n\<ge>fuel. solveIK n ''bone_8_b'' (20, 0) straightArm = Some straightArm"
  proof (elim exE, goal_cases)
    case (1 fuel)
    show ?case
    proof (intro exI[of _ fuel] allI impI)
      fix n assume "fuel \<le> n"
      from 1[rule_format, OF this]
      show "solveIK n ''bone_8_b'' (20, 0) straightArm = Some straightArm"
      proof (elim exE conjE, goal_cases)
        case (1 flag bs' bone')
        from 1(6) dist l(2) have "bs' = straightArm" by simp
        with 1(2) show ?case by simp
      qed
    qed
  qed
  with wf lower_end dist show ?thesis by blast
qed

lemma ccdIterate_fixpoint:
  "ccdPass fuel target chain (rev chain) bs = Some (False, bs) \<Longrightarrow>
     ccdIterate k fuel target chain bs = Some (False, bs)"
  by (induction k) simp_all

lemma straightArm_chain:
  "buildChain 3 (Some ''bone_8_b'') straightArm [] = Some [''bone_7_a'', ''bone_8_b'']"
  by (simp add: numeral_3_eq_3 straightArm_eq getParent_def)

lemma straightArm_end:
  "getChainEnd [''bone_7_a'', ''bone_8_b''] straightArm = Some (20, 0)"
  by (simp add: getChainEnd_def straightArm_eq getBoneEnd_def)

lemma straightArm_far: "\<not> distance (20, 0) (15, 0) < ikTolerance"
  by (simp add: distance_def hypot_axis ikTolerance_def)

lemma normalize_axis: "0 < a \<Longrightarrow> normalize (a, 0) = (1, 0)"
  by (simp add: normalize_def hypot_axis Let_def)

lemma atan2_0_1: "atan2 0 1 = 0"
  by (simp add: atan2_def)

lemma straightArm_update_lower:
  "updateBonePosition 3 ''bone_8_b'' straightArm = Some straightArm"
  by (simp add: numeral_3_eq_3 straightArm_eq snapToParent_def getParent_def getBoneEnd_def
      fun_upd_twist)

lemma straightArm_update_upper:
  "updateBonePosition 3 ''bone_7_a'' straightArm = Some straightArm"
  by (simp add: numeral_3_eq_3 straightArm_eq snapToParent_def getParent_def getBoneEnd_def
      fun_upd_twist)

lemma straightArm_lookup:
  "straightArm ''bone_8_b'' = Some
     \<lparr>bone_id = ''bone_8_b'', bone_name = ''lower'', bone_x = 10, bone_y = 0,
      bone_length = 10, angle = 0, color = ''#00ff88'', thickness = 3,
      parentId = Some ''bone_7_a'', children = [], bone_type = IK, isSelected = False\<rparr>"
  "straightArm ''bone_7_a'' = Some
     \<lparr>bone_id = ''bone_7_a'', bone_name = ''upper'', bone_x = 0, bone_y = 0,
      bone_length = 10, angle = 0, color = ''#00ff88'', thickness = 3,
      parentId = None, children = [''bone_8_b''], bone_type = IK, isSelected = False\<rparr>"
  by (simp_all add: straightArm_eq)

lemma straightArm_pass:
  "ccdPass 3 (15, 0) [''bone_7_a'', ''bone_8_b''] [''bone_8_b'', ''bone_7_a''] straightArm
     = Some (False, straightArm)"
proof -
  have a: "straightArm(''bone_8_b'' \<mapsto>
     \<lparr>bone_id = ''bone_8_b'', bone_name = ''lower'', bone_x = 10, bone_y = 0,
      bone_length = 10, angle = 0, color = ''#00ff88'', thickness = 3,
      parentId = Some ''bone_7_a'', children = [], bone_type = IK, isSelected = False\<rparr>)
      = straightArm"
    by (rule map_upd_triv) (rule straightArm_lookup)
  have b: "straightArm(''bone_7_a'' \<mapsto>
     \<lparr>bone_id = ''bone_7_a'', bone_name = ''upper'', bone_x = 0, bone_y = 0,
      bone_length = 10, angle = 0, color = ''#00ff88'', thickness = 3,
      parentId = None, children = [''bone_8_b''], bone_type = IK, isSelected = False\<rparr>)
      = straightArm"
    by (rule map_upd_triv) (rule straightArm_lookup)
  show ?thesis
    by (simp add: straightArm_lookup straightArm_end straightArm_far angleDiff_def
        normalize_axis atan2_0_1 a b straightArm_update_lower straightArm_update_upper Let_def)
qed

lemma straightArm_solveIK: "solveIK 3 ''bone_8_b'' (15, 0) straightArm = Some straightArm"
  using ccdIterate_fixpoint[of 3 "(15, 0)" "[''bone_7_a'', ''bone_8_b'']" straightArm ikIterations]
    straightArm_pass
  by (simp add: solveIK_def solveIKRun_def straightArm_lookup straightArm_chain)

text \<open>
  The claim C1 as it was stated fails: two bones of length 10 in a straight line from
  the origin along the x axis, target \<open>(15, 0)\<close> at distance 15 \<open>\<le>\<close> 20 from the root.
  At each joint the vectors to the target and to the end-effector are parallel, every
  \<open>angleDiff\<close> is 0, and after the 10 passes the chain is as it was, its end 5 away
  from the target.
\<close>

theorem solveIK_convergence_counterexample:
  "reachable straightArm
   \<and> map_option bone_length (straightArm ''bone_7_a'') = Some 10
   \<and> map_option bone_length (straightArm ''bone_8_b'') = Some 10
   \<and> hypot 15 0 \<le> 10 + 10
   \<and> solveIK 3 ''bone_8_b'' (15, 0) straightArm = Some straightArm
   \<and> map_option getBoneEnd (straightArm ''bone_8_b'') = Some (20, 0)
   \<and> distance (20, 0) (15, 0) = 5
   \<and> \<not> distance (20, 0) (15, 0) < ikTolerance"
  using reachable_straightArm straightArm_solveIK lower_end straightArm_far
  by (simp add: straightArm_lookup hypot_axis distance_def)

subsection \<open>The bound on the depth of the walks\<close>

lemma updateBonePosition_more_fuel:
  "\<forall>r. updateBonePosition n i bs = Some r \<longrightarrow> updateBonePosition (n + k) i bs = Some r"
  "\<forall>r. updateEach m cs bs0 = Some r \<longrightarrow> updateEach (m + k) cs bs0 = Some r"
proof (induction n i bs and m cs bs0 rule: updateBonePosition_updateEach.induct)
  case (1 i bs)
  then show ?case by simp
next
  case (2 n i bs)
  then show ?case by (cases "bs i") auto
next
  case (3 n bs)
  then show ?case by simp
next
  case (4 n c cs bs)
  show ?case
  proof (cases "bs c")
    case None
    with "4.IH"(1) show ?thesis by simp
  next
    case (Some child)
    show ?thesis
    proof (intro allI impI)
      fix r assume "updateEach n (c # cs) bs = Some r"
      with Some obtain bs1 where u: "updateBonePosition n c bs = Some bs1"
        and e: "updateEach n cs bs1 = Some r"
        by (auto split: option.splits)
      from "4.IH"(2)[OF Some] u have "updateBonePosition (n + k) c bs = Some bs1" by blast
      moreover from "4.IH"(3)[OF Some u] e have "updateEach (n + k) cs bs1 = Some r" by blast
      ultimately show "updateEach (n + k) (c # cs) bs = Some r" using Some by simp
    qed
  qed
qed

lemma moveChildren_more_fuel:
  "\<forall>r. moveChildren n i dx dy bs = Some r \<longrightarrow> moveChildren (n + k) i dx dy bs = Some r"
  "\<forall>r. moveEach m cs dx' dy' bs0 = Some r \<longrightarrow> moveEach (m + k) cs dx' dy' bs0 = Some r"
proof (induction n i dx dy bs and m cs dx' dy' bs0 rule: moveChildren_moveEach.induct)
  case (1 i dx dy bs)
  then show ?case by simp
next
  case (2 n i dx dy bs)
  then show ?case by (cases "bs i") auto
next
  case (3 n dx dy bs)
  then show ?case by simp
next
  case (4 n c cs dx dy bs)
  show ?case
  proof (cases "bs c")
    case None
    with "4.IH"(1) show ?thesis by simp
  next
    case (Some child)
    let ?bs1 = "bs(c \<mapsto> child\<lparr>bone_x := bone_x child + dx, bone_y := bone_y child + dy\<rparr>)"
    show ?thesis
    proof (intro allI impI)
      fix r assume "moveEach n (c # cs) dx dy bs = Some r"
      with Some obtain bs2 where u: "moveChildren n c dx dy ?bs1 = Some bs2"
        and e: "moveEach n cs dx dy bs2 = Some r"
        by (auto split: option.splits)
      from "4.IH"(2)[OF Some] u have "moveChildren (n + k) c dx dy ?bs1 = Some bs2" by blast
      moreover from "4.IH"(3)[OF Some u] e have "moveEach (n + k) cs dx dy bs2 = Some r" by blast
      ultimately show "moveEach (n + k) (c # cs) dx dy bs = Some r" using Some by simp
    qed
  qed
qed

lemma deleteBone_more_fuel:
  "\<forall>r. deleteBone n c bs = Some r \<longrightarrow> deleteBone (n + k) c bs = Some r"
  "\<forall>r. deleteEach m cs bs0 = Some r \<longrightarrow> deleteEach (m + k) cs bs0 = Some r"
proof (induction n c bs and m cs bs0 rule: deleteBone_deleteEach.induct)
  case (1 c bs)
  then show ?case by simp
next
  case (2 n c bs)
  show ?case
  proof (cases "bs c")
    case None
    then show ?thesis by simp
  next
    case (Some bone)
    show ?thesis
    proof (intro allI impI)
      fix r assume "deleteBone (Suc n) c bs = Some r"
      with Some obtain bs2 where
        e: "deleteEach n (childrenOf (detach c bone bs) c) (detach c bone bs) = Some bs2"
        and r: "r = bs2(c := None)"
        by (auto split: option.splits)
      from "2.IH"[OF Some] e
      have "deleteEach (n + k) (childrenOf (detach c bone bs) c) (detach c bone bs) = Some bs2"
        by blast
      with Some r show "deleteBone (Suc n + k) c bs = Some r" by simp
    qed
  qed
next
  case (3 n bs)
  then show ?case by simp
next
  case (4 n c cs bs)
  show ?case
  proof (intro allI impI)
    fix r assume "deleteEach n (c # cs) bs = Some r"
    then obtain bs1 where d: "deleteBone n c bs = Some bs1" and e: "deleteEach n cs bs1 = Some r"
      by (auto split: option.splits)
    from "4.IH"(1) d have "deleteBone (n + k) c bs = Some bs1" by blast
    moreover from "4.IH"(2)[OF d] e have "deleteEach (n + k) cs bs1 = Some r" by blast
    ultimately show "deleteEach (n + k) (c # cs) bs = Some r" by simp
  qed
qed

lemma ccdPass_more_fuel:
  "ccdPass fuel target chain js bs = Some r \<Longrightarrow> ccdPass (fuel + k) target chain js bs = Some r"
proof (induction js arbitrary: bs)
  case Nil
  then show ?case by simp
next
  case (Cons j js)
  from Cons.prems obtain cb where cb: "bs j = Some cb" by (auto split: option.splits)
  from Cons.prems cb obtain e where e: "getChainEnd chain bs = Some e"
    by (auto split: option.splits)
  show ?case
  proof (cases "distance e target < ikTolerance")
    case True
    with Cons.prems cb e show ?thesis by simp
  next
    case False
    let ?bs1 = "bs(j \<mapsto> cb\<lparr>angle := angle cb + angleDiff cb e target\<rparr>)"
    from Cons.prems cb e False obtain bs2 where
      u: "updateBonePosition fuel j ?bs1 = Some bs2" and
      p: "ccdPass fuel target chain js bs2 = Some r"
      by (auto split: option.splits)
    from updateBonePosition_more_fuel(1) u
    have "updateBonePosition (fuel + k) j ?bs1 = Some bs2" by blast
    with Cons.IH[OF p] cb e False show ?thesis by simp
  qed
qed

lemma ccdIterate_more_fuel:
  "ccdIterate i fuel target chain bs = Some r \<Longrightarrow>
     ccdIterate i (fuel + k) target chain bs = Some r"
proof (induction i arbitrary: bs)
  case 0
  then show ?case by simp
next
  case (Suc i)
  from Suc.prems obtain f1 bs1 where p: "ccdPass fuel target chain (rev chain) bs = Some (f1, bs1)"
    by (auto split: option.splits)
  from ccdPass_more_fuel[OF p]
  have p': "ccdPass (fuel + k) target chain (rev chain) bs = Some (f1, bs1)" .
  show ?case
  proof (cases f1)
    case True
    with Suc.prems p have "r = (True, bs1)" by simp
    with p' True show ?thesis by simp
  next
    case False
    with Suc.prems p have "ccdIterate i fuel target chain bs1 = Some r" by simp
    from Suc.IH[OF this] p' False show ?thesis by simp
  qed
qed

text \<open>A result does not depend on the bound: more fuel gives the same result.\<close>

lemma fuel_is_only_a_bound:
  "moveBone n i position bs = Some r \<Longrightarrow> moveBone (n + k) i position bs = Some r"
  "setBoneAngle n i a bs = Some r \<Longrightarrow> setBoneAngle (n + k) i a bs = Some r"
  "deleteBone n i bs = Some r \<Longrightarrow> deleteBone (n + k) i bs = Some r"
  "solveIKRun n i target bs = Some q \<Longrightarrow> solveIKRun (n + k) i target bs = Some q"
  "solveIK n i target bs = Some r \<Longrightarrow> solveIK (n + k) i target bs = Some r"
proof -
  show "moveBone n i position bs = Some r \<Longrightarrow> moveBone (n + k) i position bs = Some r"
    using moveChildren_more_fuel(1)
    by (cases "bs i") (auto simp: moveBone_def Let_def)
  show "setBoneAngle n i a bs = Some r \<Longrightarrow> setBoneAngle (n + k) i a bs = Some r"
    using updateBonePosition_more_fuel(1)
    by (cases "bs i") (auto simp: setBoneAngle_def)
  show "deleteBone n i bs = Some r \<Longrightarrow> deleteBone (n + k) i bs = Some r"
    using deleteBone_more_fuel(1) by blast
  show run: "solveIKRun n i target bs = Some q \<Longrightarrow> solveIKRun (n + k) i target bs = Some q" for q
  proof (cases "bs i")
    case None
    assume "solveIKRun n i target bs = Some q"
    with None show ?thesis by (simp add: solveIKRun_def)
  next
    case (Some bone)
    assume a: "solveIKRun n i target bs = Some q"
    with Some obtain chain where c: "buildChain n (Some i) bs [] = Some chain"
      and it: "ccdIterate ikIterations n target chain bs = Some q"
      by (auto simp: solveIKRun_def split: option.splits)
    from buildChain_more_fuel[OF c, of k] ccdIterate_more_fuel[OF it, of k] Some
    show ?thesis by (simp add: solveIKRun_def)
  qed
  show "solveIK n i target bs = Some r \<Longrightarrow> solveIK (n + k) i target bs = Some r"
    using run by (auto simp: solveIK_def)
qed

lemma ranked_shrunk: "ranked h bs \<Longrightarrow> shrunk bs bs' \<Longrightarrow> ranked h bs'"
  using shrunk_childRel[of bs bs'] by (auto simp: ranked_def)

lemma deleteBone_returns:
  "\<forall>h. ranked h bs \<longrightarrow> h c < n \<longrightarrow> deleteBone n c bs \<noteq> None"
  "\<forall>h. ranked h bs0 \<longrightarrow> (\<forall>c\<in>set cs. h c < m) \<longrightarrow> deleteEach m cs bs0 \<noteq> None"
proof (induction n c bs and m cs bs0 rule: deleteBone_deleteEach.induct)
  case (1 c bs)
  then show ?case by simp
next
  case (2 n c bs)
  show ?case
  proof (cases "bs c")
    case None
    then show ?thesis by simp
  next
    case (Some bone)
    show ?thesis
    proof (intro allI impI)
      fix h assume r: "ranked h bs" and hc: "h c < Suc n"
      have r1: "ranked h (detach c bone bs)"
        using r shrunk_detach[of bs c bone] by (rule ranked_shrunk)
      have "\<forall>x\<in>set (childrenOf (detach c bone bs) c). h x < n"
      proof
        fix x assume "x \<in> set (childrenOf (detach c bone bs) c)"
        then have "(c, x) \<in> childRel (detach c bone bs)"
          by (cases "detach c bone bs c") (auto simp: childrenOf_def childRel_def)
        with r1 hc show "h x < n" by (fastforce simp: ranked_def)
      qed
      with "2.IH"[OF Some] r1
      have "deleteEach n (childrenOf (detach c bone bs) c) (detach c bone bs) \<noteq> None" by blast
      with Some show "deleteBone (Suc n) c bs \<noteq> None" by auto
    qed
  qed
next
  case (3 n bs)
  then show ?case by simp
next
  case (4 n c cs bs)
  show ?case
  proof (intro allI impI)
    fix h assume r: "ranked h bs" and hc: "\<forall>c'\<in>set (c # cs). h c' < n"
    from "4.IH"(1) r hc obtain bs1 where d: "deleteBone n c bs = Some bs1" by auto
    then have "shrunk bs bs1" using deleteBone_shrunk(1) by blast
    with r have "ranked h bs1" by (rule ranked_shrunk)
    with "4.IH"(2)[OF d] hc have "deleteEach n cs bs1 \<noteq> None" by auto
    with d show "deleteEach n (c # cs) bs \<noteq> None" by simp
  qed
qed

text \<open>In a well-formed hierarchy, so in every reachable one, each operation returns.\<close>

lemma operations_return:
  assumes "wellFormed bs"
  shows "\<exists>fuel. \<forall>n\<ge>fuel. deleteBone n i bs \<noteq> None \<and> setBoneAngle n i a bs \<noteq> None
           \<and> moveBone n i position bs \<noteq> None \<and> solveIK n i target bs \<noteq> None"
proof (cases "bs i")
  case None
  have "\<forall>n\<ge>1. deleteBone n i bs \<noteq> None \<and> setBoneAngle n i a bs \<noteq> None
           \<and> moveBone n i position bs \<noteq> None \<and> solveIK n i target bs \<noteq> None"
  proof (intro allI impI)
    fix n :: nat assume "1 \<le> n"
    then obtain m where "n = Suc m" by (cases n) auto
    with None show "deleteBone n i bs \<noteq> None \<and> setBoneAngle n i a bs \<noteq> None
           \<and> moveBone n i position bs \<noteq> None \<and> solveIK n i target bs \<noteq> None"
      by (simp add: setBoneAngle_def moveBone_def solveIK_def solveIKRun_def)
  qed
  then show ?thesis by blast
next
  case (Some bone)
  from assms obtain h where h: "ranked h bs" by (auto simp: wellFormed_def)
  from solveIK_outcome[OF assms Some, of target]
  obtain f1 where f1: "\<forall>n\<ge>f1. solveIK n i target bs \<noteq> None" by (metis option.distinct(1))
  have "\<forall>n\<ge>max f1 (Suc (h i)). deleteBone n i bs \<noteq> None \<and> setBoneAngle n i a bs \<noteq> None
           \<and> moveBone n i position bs \<noteq> None \<and> solveIK n i target bs \<noteq> None"
  proof (intro allI impI)
    fix n assume n: "max f1 (Suc (h i)) \<le> n"
    then have hi: "h i < n" by simp
    have "ranked h (bs(i \<mapsto> bone\<lparr>angle := a\<rparr>))"
      using h poseOnly_update(2)[of bs i bone a, OF Some] by (rule ranked_poseOnly)
    with updateBonePosition_returns(1) hi
    have "updateBonePosition n i (bs(i \<mapsto> bone\<lparr>angle := a\<rparr>)) \<noteq> None" by blast
    then have "setBoneAngle n i a bs \<noteq> None" using Some by (simp add: setBoneAngle_def)
    moreover have "deleteBone n i bs \<noteq> None" using deleteBone_returns(1) h hi by blast
    moreover have "moveBone n i position bs \<noteq> None"
      using moveBone_shifted[OF assms Some h hi, of position] by simp
    moreover have "solveIK n i target bs \<noteq> None" using f1 n by simp
    ultimately show "deleteBone n i bs \<noteq> None \<and> setBoneAngle n i a bs \<noteq> None
           \<and> moveBone n i position bs \<noteq> None \<and> solveIK n i target bs \<noteq> None"
      by simp
  qed
  then show ?thesis by blast
qed

end
